theory Spec2Isabelle
  imports Main
begin

section \<open>Object handles, errors and regions\<close>

text \<open>
  An object handle of the kernel is a machine word that is the null pointer, an immediate
  small integer, an immediate finite field element, or the address of a master pointer
  (a bag reference). A slot of a bag may also hold a raw machine word that is no handle
  (a length, a record name number, raw data): that is \<open>Word\<close>.
\<close>

datatype Obj = Null | IntObj int | FFE nat | Ref nat | Word nat

fun IS_INTOBJ :: "Obj \<Rightarrow> bool" where
  "IS_INTOBJ (IntObj _) = True"
| "IS_INTOBJ _ = False"

fun IS_FFE :: "Obj \<Rightarrow> bool" where
  "IS_FFE (FFE _) = True"
| "IS_FFE _ = False"

text \<open>
  \<open>ErrorReturnVoid\<close> is the recoverable error of the kernel (the user can return from the
  break loop), \<open>ErrorQuit\<close> the one that unwinds to the main loop. \<open>Fault\<close> stands for what C
  leaves undefined: dereferencing a handle that is no bag reference, or leaving the bounds of
  a bag or of a fixed array.
\<close>

datatype error = ErrorReturnVoid string | ErrorQuit string | Fault

section \<open>Type tags\<close>

text \<open>
  Modelled from the spec: the numbering of the type tags is declared in \<open>objects.h\<close>, which
  is not among the sources. The tags form contiguous ranges (constants, records, lists,
  external objects), and the tag of an object that is being copied is its own tag plus
  \<open>COPYING\<close>, beyond the last real tag. The numbers below stand for those of the header:
  only their order and distinctness is used.
\<close>

definition FIRST_REAL_TNUM :: nat where "FIRST_REAL_TNUM = 0"
definition FIRST_CONSTANT_TNUM :: nat where "FIRST_CONSTANT_TNUM = 0"
definition T_INT :: nat where "T_INT = 0"
definition T_FFE :: nat where "T_FFE = 5"
definition LAST_CONSTANT_TNUM :: nat where "LAST_CONSTANT_TNUM = 15"
definition FIRST_RECORD_TNUM :: nat where "FIRST_RECORD_TNUM = 16"
definition T_PREC :: nat where "T_PREC = 16"
definition LAST_RECORD_TNUM :: nat where "LAST_RECORD_TNUM = 17"
definition FIRST_LIST_TNUM :: nat where "FIRST_LIST_TNUM = 18"
definition T_PLIST :: nat where "T_PLIST = 20"
definition LAST_LIST_TNUM :: nat where "LAST_LIST_TNUM = 79"
definition FIRST_EXTERNAL_TNUM :: nat where "FIRST_EXTERNAL_TNUM = 80"
definition T_COMOBJ :: nat where "T_COMOBJ = 80"
definition T_POSOBJ :: nat where "T_POSOBJ = 81"
definition T_DATOBJ :: nat where "T_DATOBJ = 82"
definition T_WPOBJ :: nat where "T_WPOBJ = 83"
definition T_APOSOBJ :: nat where "T_APOSOBJ = 84"
definition T_ACOMOBJ :: nat where "T_ACOMOBJ = 85"
definition T_FIXALIST :: nat where "T_FIXALIST = 86"
definition T_ALIST :: nat where "T_ALIST = 87"
definition T_AREC :: nat where "T_AREC = 88"
definition LAST_EXTERNAL_TNUM :: nat where "LAST_EXTERNAL_TNUM = 95"
definition LAST_REAL_TNUM :: nat where "LAST_REAL_TNUM = 95"
definition COPYING :: nat where "COPYING = 80"

lemmas tnum_defs =
  FIRST_REAL_TNUM_def FIRST_CONSTANT_TNUM_def T_INT_def T_FFE_def LAST_CONSTANT_TNUM_def
  FIRST_RECORD_TNUM_def T_PREC_def LAST_RECORD_TNUM_def FIRST_LIST_TNUM_def T_PLIST_def
  LAST_LIST_TNUM_def FIRST_EXTERNAL_TNUM_def T_COMOBJ_def T_POSOBJ_def T_DATOBJ_def
  T_WPOBJ_def T_APOSOBJ_def T_ACOMOBJ_def T_FIXALIST_def T_ALIST_def T_AREC_def
  LAST_EXTERNAL_TNUM_def LAST_REAL_TNUM_def COPYING_def

section \<open>Bags and the heap\<close>

text \<open>
  A bag has a type tag, a size in bytes and a body of machine words (\<open>sizeof(Obj) = 8\<close>).
  The heap maps the address of a master pointer to its bag; \<open>nextbag\<close> is the address the
  next \<open>NewBag\<close> hands out, and \<open>copiedObjs\<close> the thread's field \<open>TLS->copiedObjs\<close>.
\<close>

record bag =
  tnum :: nat
  size :: nat
  slots :: "Obj list"

record heap =
  bags :: "nat \<Rightarrow> bag option"
  nextbag :: nat
  copiedObjs :: Obj

definition WORDS :: "nat \<Rightarrow> nat" where
  "WORDS sz = (sz + 7) div 8"

text \<open>
  Modelled from the spec: \<open>NewBag\<close>, \<open>RetypeBag\<close> and \<open>ResizeBag\<close> belong to the collector
  (\<open>gasman.c\<close>), consumed as "allocate a tagged object of size N", "retag", "resize". A new
  bag is zeroed; resizing keeps the words that fit and zeroes the new ones.
\<close>

definition NewBag :: "heap \<Rightarrow> nat \<Rightarrow> nat \<Rightarrow> heap \<times> nat" where
  "NewBag h t sz =
     (h\<lparr>bags := (bags h)(nextbag h \<mapsto> \<lparr>tnum = t, size = sz, slots = replicate (WORDS sz) Null\<rparr>),
        nextbag := Suc (nextbag h)\<rparr>, nextbag h)"

definition upd_bag :: "heap \<Rightarrow> nat \<Rightarrow> bag \<Rightarrow> heap" where
  "upd_bag h b x = h\<lparr>bags := (bags h)(b \<mapsto> x)\<rparr>"

definition RetypeBag :: "heap \<Rightarrow> nat \<Rightarrow> nat \<Rightarrow> error + heap" where
  "RetypeBag h b t =
     (case bags h b of None \<Rightarrow> Inl Fault | Some x \<Rightarrow> Inr (upd_bag h b (x\<lparr>tnum := t\<rparr>)))"


text \<open>\<open>ADDR_OBJ(obj)[i]\<close>, read and written; outside the body it is a fault.\<close>

definition get_slot :: "heap \<Rightarrow> nat \<Rightarrow> nat \<Rightarrow> error + Obj" where
  "get_slot h b i =
     (case bags h b of None \<Rightarrow> Inl Fault
      | Some x \<Rightarrow> if i < length (slots x) then Inr (slots x ! i) else Inl Fault)"

definition set_slot :: "heap \<Rightarrow> nat \<Rightarrow> nat \<Rightarrow> Obj \<Rightarrow> error + heap" where
  "set_slot h b i v =
     (case bags h b of None \<Rightarrow> Inl Fault
      | Some x \<Rightarrow> if i < length (slots x)
          then Inr (upd_bag h b (x\<lparr>slots := (slots x)[i := v]\<rparr>)) else Inl Fault)"

definition SIZE_OBJ :: "heap \<Rightarrow> nat \<Rightarrow> error + nat" where
  "SIZE_OBJ h b = (case bags h b of None \<Rightarrow> Inl Fault | Some x \<Rightarrow> Inr (size x))"

text \<open>
  \<open>TNUM_OBJ\<close>: the tag of an immediate object is \<open>T_INT\<close> or \<open>T_FFE\<close>, that of a bag
  reference is read from the bag.
\<close>

definition TNUM_OBJ :: "heap \<Rightarrow> Obj \<Rightarrow> error + nat" where
  "TNUM_OBJ h obj =
     (case obj of IntObj _ \<Rightarrow> Inr T_INT | FFE _ \<Rightarrow> Inr T_FFE
      | Ref b \<Rightarrow> (case bags h b of None \<Rightarrow> Inl Fault | Some x \<Rightarrow> Inr (tnum x))
      | _ \<Rightarrow> Inl Fault)"

text \<open>Sequencing of steps that may raise.\<close>

definition bindE :: "error + 'a \<Rightarrow> ('a \<Rightarrow> error + 'b) \<Rightarrow> error + 'b" where
  "bindE m f = (case m of Inl e \<Rightarrow> Inl e | Inr x \<Rightarrow> f x)"

section \<open>Mutability and copyability\<close>

text \<open>
  Modelled from the spec: the filters \<open>IsMutableObjFilt\<close> and \<open>IsCopyableObjFilt\<close> are
  evaluated by \<open>DoFilter\<close> (\<open>opers.c\<close>) on the flags of the object's type descriptor, and
  \<open>RESET_FILTER_OBJ\<close> is a function of the library that gives the object a descriptor without
  the filter. None of them is among the sources, so they are parameters: what a descriptor
  says about mutability and copyability, and the descriptor \<open>RESET_FILTER_OBJ\<close> installs.
\<close>

record lib =
  mutable_kind :: "Obj \<Rightarrow> bool"
  copyable_kind :: "Obj \<Rightarrow> bool"
  reset_mutable :: "Obj \<Rightarrow> Obj"

text \<open>
  \<open>TypeObjFuncs\<close> as \<open>InitKernel\<close> fills it: \<open>TypeObjError\<close> everywhere, then the three
  structural kinds, each of which keeps its descriptor in the first word of the body.
\<close>

definition TYPE_OBJ :: "heap \<Rightarrow> Obj \<Rightarrow> error + Obj" where
  "TYPE_OBJ h obj =
     bindE (TNUM_OBJ h obj) (\<lambda>t.
       if t = T_COMOBJ \<or> t = T_POSOBJ \<or> t = T_DATOBJ
         then (case obj of Ref b \<Rightarrow> get_slot h b 0 | _ \<Rightarrow> Inl Fault)
       else if t \<le> LAST_REAL_TNUM
         then Inl (ErrorQuit ''Panic: basic object is unkind'')
       else Inl Fault)"

text \<open>
  \<open>IsMutableObjFuncs\<close> and \<open>IsCopyableObjFuncs\<close> as \<open>InitKernel\<close> fills them: the error
  entry for every real tag, \<open>...Not\<close> for the constants, \<open>...Object\<close> for the external
  tags. Both tables end at \<open>LAST_REAL_TNUM\<close>.
\<close>

definition IS_MUTABLE_OBJ :: "lib \<Rightarrow> heap \<Rightarrow> Obj \<Rightarrow> error + bool" where
  "IS_MUTABLE_OBJ L h obj =
     bindE (TNUM_OBJ h obj) (\<lambda>t.
       if FIRST_EXTERNAL_TNUM \<le> t \<and> t \<le> LAST_EXTERNAL_TNUM
         then bindE (TYPE_OBJ h obj) (\<lambda>k. Inr (mutable_kind L k))
       else if FIRST_CONSTANT_TNUM \<le> t \<and> t \<le> LAST_CONSTANT_TNUM then Inr False
       else if t \<le> LAST_REAL_TNUM
         then Inl (ErrorQuit ''Panic: tried to test mutability of unknown type'')
       else Inl Fault)"

definition IS_COPYABLE_OBJ :: "lib \<Rightarrow> heap \<Rightarrow> Obj \<Rightarrow> error + bool" where
  "IS_COPYABLE_OBJ L h obj =
     bindE (TNUM_OBJ h obj) (\<lambda>t.
       if FIRST_EXTERNAL_TNUM \<le> t \<and> t \<le> LAST_EXTERNAL_TNUM
         then bindE (TYPE_OBJ h obj) (\<lambda>k. Inr (copyable_kind L k))
       else if FIRST_CONSTANT_TNUM \<le> t \<and> t \<le> LAST_CONSTANT_TNUM then Inr False
       else if t \<le> LAST_REAL_TNUM
         then Inl (ErrorQuit ''Panic: tried to test copyability of unknown type'')
       else Inl Fault)"

definition RESET_FILTER_OBJ_mutable :: "lib \<Rightarrow> heap \<Rightarrow> nat \<Rightarrow> error + heap" where
  "RESET_FILTER_OBJ_mutable L h b =
     bindE (get_slot h b 0) (\<lambda>k. set_slot h b 0 (reset_mutable L k))"

section \<open>Plain lists and component objects: layout\<close>

text \<open>
  Modelled from the spec: the macros of \<open>plist.h\<close> and \<open>precord.h\<close> are not among the
  sources. A plain list keeps its length in word 0 and element \<open>pos\<close> in word \<open>pos\<close>; a
  component object keeps its descriptor in word 0, the number of its components in word 1,
  the name of component \<open>i\<close> in word \<open>2*i\<close> and its value in word \<open>2*i+1\<close>.
\<close>

definition NEW_PLIST :: "heap \<Rightarrow> nat \<Rightarrow> nat \<Rightarrow> heap \<times> nat" where
  "NEW_PLIST h t plen = NewBag h t ((plen + 1) * 8)"

definition SET_LEN_PLIST :: "heap \<Rightarrow> nat \<Rightarrow> nat \<Rightarrow> error + heap" where
  "SET_LEN_PLIST h l plen = set_slot h l 0 (IntObj (int plen))"

definition SET_ELM_PLIST :: "heap \<Rightarrow> nat \<Rightarrow> nat \<Rightarrow> Obj \<Rightarrow> error + heap" where
  "SET_ELM_PLIST h l pos v = set_slot h l pos v"

definition ELM_PLIST :: "heap \<Rightarrow> Obj \<Rightarrow> nat \<Rightarrow> error + Obj" where
  "ELM_PLIST h l pos = (case l of Ref b \<Rightarrow> get_slot h b pos | _ \<Rightarrow> Inl Fault)"

text \<open>A word read as an unsigned number; a word that holds a handle has none here.\<close>

definition UINT :: "Obj \<Rightarrow> error + nat" where
  "UINT v = (case v of Word n \<Rightarrow> Inr n | _ \<Rightarrow> Inl Fault)"

definition LEN_PREC :: "heap \<Rightarrow> nat \<Rightarrow> error + nat" where
  "LEN_PREC h b = bindE (get_slot h b 1) UINT"

definition SET_LEN_PREC :: "heap \<Rightarrow> nat \<Rightarrow> nat \<Rightarrow> error + heap" where
  "SET_LEN_PREC h b n = set_slot h b 1 (Word n)"

definition GET_RNAM_PREC :: "heap \<Rightarrow> nat \<Rightarrow> nat \<Rightarrow> error + nat" where
  "GET_RNAM_PREC h b i = bindE (get_slot h b (2 * i)) UINT"

definition SET_RNAM_PREC :: "heap \<Rightarrow> nat \<Rightarrow> nat \<Rightarrow> nat \<Rightarrow> error + heap" where
  "SET_RNAM_PREC h b i r = set_slot h b (2 * i) (Word r)"

definition GET_ELM_PREC :: "heap \<Rightarrow> nat \<Rightarrow> nat \<Rightarrow> error + Obj" where
  "GET_ELM_PREC h b i = get_slot h b (2 * i + 1)"

definition SET_ELM_PREC :: "heap \<Rightarrow> nat \<Rightarrow> nat \<Rightarrow> Obj \<Rightarrow> error + heap" where
  "SET_ELM_PREC h b i v = set_slot h b (2 * i + 1) v"

section \<open>Deep copy and clean\<close>

text \<open>
  \<open>CopyObjFuncs\<close> and \<open>CleanObjFuncs\<close> as \<open>InitKernel\<close> fills them: the error entry for all
  real tags, the constant entry for the constant tags, then the six entries of the three
  structural kinds. The tables have \<open>LAST_REAL_TNUM+COPYING+1\<close> entries; an entry that
  \<open>InitKernel\<close> leaves alone is \<open>None\<close>.
\<close>

datatype copy_fn =
  CopyObjError_fn | CopyObjConstant_fn
  | CopyObjPosObj_fn | CopyObjPosObjCopy_fn
  | CopyObjComObj_fn | CopyObjComObjCopy_fn
  | CopyObjDatObj_fn | CopyObjDatObjCopy_fn

datatype clean_fn =
  CleanObjError_fn | CleanObjConstant_fn
  | CleanObjPosObj_fn | CleanObjPosObjCopy_fn
  | CleanObjComObj_fn | CleanObjComObjCopy_fn
  | CleanObjDatObj_fn | CleanObjDatObjCopy_fn

definition CopyObjFuncs :: "nat \<Rightarrow> copy_fn option" where
  "CopyObjFuncs t =
     (if t = T_DATOBJ + COPYING then Some CopyObjDatObjCopy_fn
      else if t = T_DATOBJ then Some CopyObjDatObj_fn
      else if t = T_COMOBJ + COPYING then Some CopyObjComObjCopy_fn
      else if t = T_COMOBJ then Some CopyObjComObj_fn
      else if t = T_POSOBJ + COPYING then Some CopyObjPosObjCopy_fn
      else if t = T_POSOBJ then Some CopyObjPosObj_fn
      else if FIRST_CONSTANT_TNUM \<le> t \<and> t \<le> LAST_CONSTANT_TNUM then Some CopyObjConstant_fn
      else if FIRST_REAL_TNUM \<le> t \<and> t \<le> LAST_REAL_TNUM then Some CopyObjError_fn
      else None)"

definition CleanObjFuncs :: "nat \<Rightarrow> clean_fn option" where
  "CleanObjFuncs t =
     (if t = T_DATOBJ + COPYING then Some CleanObjDatObjCopy_fn
      else if t = T_DATOBJ then Some CleanObjDatObj_fn
      else if t = T_COMOBJ + COPYING then Some CleanObjComObjCopy_fn
      else if t = T_COMOBJ then Some CleanObjComObj_fn
      else if t = T_POSOBJ + COPYING then Some CleanObjPosObjCopy_fn
      else if t = T_POSOBJ then Some CleanObjPosObj_fn
      else if FIRST_CONSTANT_TNUM \<le> t \<and> t \<le> LAST_CONSTANT_TNUM then Some CleanObjConstant_fn
      else if FIRST_REAL_TNUM \<le> t \<and> t \<le> LAST_REAL_TNUM then Some CleanObjError_fn
      else None)"

text \<open>
  "leave a forwarding pointer" and "now it is copied": a new plain list of length 2 holds
  the first word of the original and the copy, takes the place of that first word, and the
  original is retagged.
\<close>

definition leave_forwarding_pointer :: "heap \<Rightarrow> nat \<Rightarrow> nat \<Rightarrow> error + heap" where
  "leave_forwarding_pointer h b copy =
     (case NEW_PLIST h T_PLIST 2 of (h1, tmp) \<Rightarrow>
        bindE (SET_LEN_PLIST h1 tmp 2) (\<lambda>h2.
        bindE (get_slot h2 b 0) (\<lambda>v.
        bindE (SET_ELM_PLIST h2 tmp 1 v) (\<lambda>h3.
        bindE (SET_ELM_PLIST h3 tmp 2 (Ref copy)) (\<lambda>h4.
        bindE (set_slot h4 b 0 (Ref tmp)) (\<lambda>h5.
        bindE (TNUM_OBJ h5 (Ref b)) (\<lambda>t.
        RetypeBag h5 b (t + COPYING))))))))"

text \<open>
  The opening that \<open>CopyObjPosObj\<close>, \<open>CopyObjComObj\<close> and \<open>CopyObjDatObj\<close> share, up to the
  loop over the subvalues: an immutable object is returned as it is (\<open>Unchanged\<close>), a mutable
  one that is not copyable raises, and otherwise the copy is allocated with the tag, the
  size and the first word of the original (and its length, for a component object), made
  immutable if \<open>mut\<close> is 0, and the forwarding pointer is left (\<open>Started\<close>, with the heap,
  the original and the copy).
\<close>

datatype started = Unchanged | Started heap nat nat

definition begin_copy :: "lib \<Rightarrow> heap \<Rightarrow> Obj \<Rightarrow> bool \<Rightarrow> bool \<Rightarrow> error + started" where
  "begin_copy L h obj mut com =
     bindE (IS_MUTABLE_OBJ L h obj) (\<lambda>m. if \<not> m then Inr Unchanged else
     bindE (IS_COPYABLE_OBJ L h obj) (\<lambda>c.
       if \<not> c then Inl (ErrorQuit ''Panic: encountered mutable, non-copyable object'') else
       (case obj of
          Ref b \<Rightarrow>
            bindE (TNUM_OBJ h obj) (\<lambda>t.
            bindE (SIZE_OBJ h b) (\<lambda>sz.
            (case NewBag h t sz of (h1, copy) \<Rightarrow>
              bindE (get_slot h1 b 0) (\<lambda>v.
              bindE (set_slot h1 copy 0 v) (\<lambda>h2.
              bindE (if com then bindE (LEN_PREC h2 b) (SET_LEN_PREC h2 copy) else Inr h2) (\<lambda>h3.
              bindE (if mut then Inr h3 else RESET_FILTER_OBJ_mutable L h3 copy) (\<lambda>h4.
              bindE (leave_forwarding_pointer h4 b copy) (\<lambda>h5.
              Inr (Started h5 b copy)))))))))
        | _ \<Rightarrow> Inl Fault)))"

text \<open>The three \<open>...Copy\<close> bodies return the second entry of the forwarding pointer.\<close>

definition CopyObjPosObjCopy :: "heap \<Rightarrow> Obj \<Rightarrow> error + heap \<times> Obj" where
  "CopyObjPosObjCopy h obj =
     (case obj of
        Ref b \<Rightarrow> bindE (get_slot h b 0) (\<lambda>f. bindE (ELM_PLIST h f 2) (\<lambda>c. Inr (h, c)))
      | _ \<Rightarrow> Inl Fault)"

text \<open>
  The loop of \<open>CopyObjDatObj\<close> copies \<open>(SIZE_OBJ(obj)-sizeof(Obj)+sizeof(Int)-1) / sizeof(Int)\<close>
  words, computed in unsigned 64-bit arithmetic, from the second word on.
\<close>

fun copy_words :: "heap \<Rightarrow> nat \<Rightarrow> nat \<Rightarrow> nat \<Rightarrow> nat \<Rightarrow> error + heap" where
  "copy_words h src dst p 0 = Inr h"
| "copy_words h src dst p (Suc k) =
     (case get_slot h src p of Inl e \<Rightarrow> Inl e
      | Inr v \<Rightarrow> (case set_slot h dst p v of Inl e \<Rightarrow> Inl e
          | Inr h' \<Rightarrow> copy_words h' src dst (Suc p) k))"

definition CopyObjDatObj :: "lib \<Rightarrow> heap \<Rightarrow> Obj \<Rightarrow> bool \<Rightarrow> error + heap \<times> Obj" where
  "CopyObjDatObj L h obj mut =
     bindE (begin_copy L h obj mut False) (\<lambda>st.
       case st of Unchanged \<Rightarrow> Inr (h, obj)
       | Started h1 b copy \<Rightarrow>
           bindE (SIZE_OBJ h1 b) (\<lambda>sz.
           bindE (copy_words h1 b copy 1 (((sz + 2 ^ 64 - 8 + 8 - 1) mod 2 ^ 64) div 8)) (\<lambda>h2.
           Inr (h2, Ref copy))))"

text \<open>
  \<open>COPY_OBJ\<close> dispatches on the tag. The recursion of the C code need not end on a heap
  that is not well formed, so the functions take fuel: one unit for every dispatch and
  for every turn of a loop over subvalues; \<open>None\<close> means that the fuel ran out.
\<close>

fun COPY_OBJ :: "lib \<Rightarrow> nat \<Rightarrow> heap \<Rightarrow> Obj \<Rightarrow> bool \<Rightarrow> (error + heap \<times> Obj) option"
  and CopyObjPosObj_subvalues ::
    "lib \<Rightarrow> nat \<Rightarrow> heap \<Rightarrow> nat \<Rightarrow> nat \<Rightarrow> bool \<Rightarrow> nat \<Rightarrow> (error + heap) option"
  and CopyObjComObj_subvalues ::
    "lib \<Rightarrow> nat \<Rightarrow> heap \<Rightarrow> nat \<Rightarrow> nat \<Rightarrow> bool \<Rightarrow> nat \<Rightarrow> (error + heap) option"
where
  "COPY_OBJ L 0 h obj mut = None"
| "COPY_OBJ L (Suc n) h obj mut =
     (case TNUM_OBJ h obj of Inl e \<Rightarrow> Some (Inl e)
      | Inr t \<Rightarrow>
        (case CopyObjFuncs t of
           None \<Rightarrow> Some (Inl Fault)
         | Some CopyObjError_fn \<Rightarrow>
             Some (Inl (ErrorQuit ''Panic: tried to copy object of unknown type''))
         | Some CopyObjConstant_fn \<Rightarrow> Some (Inr (h, obj))
         | Some CopyObjPosObj_fn \<Rightarrow>
             (case begin_copy L h obj mut False of Inl e \<Rightarrow> Some (Inl e)
              | Inr Unchanged \<Rightarrow> Some (Inr (h, obj))
              | Inr (Started h1 b copy) \<Rightarrow>
                  (case CopyObjPosObj_subvalues L n h1 b copy mut 1 of None \<Rightarrow> None
                   | Some (Inl e) \<Rightarrow> Some (Inl e)
                   | Some (Inr h2) \<Rightarrow> Some (Inr (h2, Ref copy))))
         | Some CopyObjComObj_fn \<Rightarrow>
             (case begin_copy L h obj mut True of Inl e \<Rightarrow> Some (Inl e)
              | Inr Unchanged \<Rightarrow> Some (Inr (h, obj))
              | Inr (Started h1 b copy) \<Rightarrow>
                  (case CopyObjComObj_subvalues L n h1 b copy mut 1 of None \<Rightarrow> None
                   | Some (Inl e) \<Rightarrow> Some (Inl e)
                   | Some (Inr h2) \<Rightarrow> Some (Inr (h2, Ref copy))))
         | Some CopyObjDatObj_fn \<Rightarrow> Some (CopyObjDatObj L h obj mut)
         | Some _ \<Rightarrow> Some (CopyObjPosObjCopy h obj)))"
| "CopyObjPosObj_subvalues L 0 h b copy mut i = None"
| "CopyObjPosObj_subvalues L (Suc n) h b copy mut i =
     (case SIZE_OBJ h b of Inl e \<Rightarrow> Some (Inl e)
      | Inr sz \<Rightarrow>
        if i < sz div 8 then
          (case get_slot h b i of Inl e \<Rightarrow> Some (Inl e)
           | Inr v \<Rightarrow>
             if v \<noteq> Null then
               (case COPY_OBJ L n h v mut of None \<Rightarrow> None
                | Some (Inl e) \<Rightarrow> Some (Inl e)
                | Some (Inr (h1, tmp)) \<Rightarrow>
                    (case set_slot h1 copy i tmp of Inl e \<Rightarrow> Some (Inl e)
                     | Inr h2 \<Rightarrow> CopyObjPosObj_subvalues L n h2 b copy mut (i + 1)))
             else CopyObjPosObj_subvalues L n h b copy mut (i + 1))
        else Some (Inr h))"
| "CopyObjComObj_subvalues L 0 h b copy mut i = None"
| "CopyObjComObj_subvalues L (Suc n) h b copy mut i =
     (case LEN_PREC h b of Inl e \<Rightarrow> Some (Inl e)
      | Inr len \<Rightarrow>
        if i \<le> len then
          (case bindE (GET_RNAM_PREC h b i) (SET_RNAM_PREC h copy i) of Inl e \<Rightarrow> Some (Inl e)
           | Inr h0 \<Rightarrow>
             (case GET_ELM_PREC h0 b i of Inl e \<Rightarrow> Some (Inl e)
              | Inr v \<Rightarrow>
                (case COPY_OBJ L n h0 v mut of None \<Rightarrow> None
                 | Some (Inl e) \<Rightarrow> Some (Inl e)
                 | Some (Inr (h1, tmp)) \<Rightarrow>
                     (case SET_ELM_PREC h1 copy i tmp of Inl e \<Rightarrow> Some (Inl e)
                      | Inr h2 \<Rightarrow> CopyObjComObj_subvalues L n h2 b copy mut (i + 1)))))
        else Some (Inr h))"

text \<open>
  "remove the forwarding pointer" and "now it is cleaned", the opening of the three
  \<open>Clean...Copy\<close> bodies.
\<close>

definition remove_forwarding_pointer :: "heap \<Rightarrow> nat \<Rightarrow> error + heap" where
  "remove_forwarding_pointer h b =
     bindE (get_slot h b 0) (\<lambda>f.
     bindE (ELM_PLIST h f 1) (\<lambda>v.
     bindE (set_slot h b 0 v) (\<lambda>h1.
     bindE (TNUM_OBJ h1 (Ref b)) (\<lambda>t.
     RetypeBag h1 b (t - COPYING)))))"

definition CleanObjDatObjCopy :: "heap \<Rightarrow> Obj \<Rightarrow> error + heap" where
  "CleanObjDatObjCopy h obj =
     (case obj of Ref b \<Rightarrow> remove_forwarding_pointer h b | _ \<Rightarrow> Inl Fault)"

fun CLEAN_OBJ :: "nat \<Rightarrow> heap \<Rightarrow> Obj \<Rightarrow> (error + heap) option"
  and CleanObjPosObjCopy_subvalues :: "nat \<Rightarrow> heap \<Rightarrow> nat \<Rightarrow> nat \<Rightarrow> (error + heap) option"
  and CleanObjComObjCopy_subvalues :: "nat \<Rightarrow> heap \<Rightarrow> nat \<Rightarrow> nat \<Rightarrow> (error + heap) option"
where
  "CLEAN_OBJ 0 h obj = None"
| "CLEAN_OBJ (Suc n) h obj =
     (case TNUM_OBJ h obj of Inl e \<Rightarrow> Some (Inl e)
      | Inr t \<Rightarrow>
        (case CleanObjFuncs t of
           None \<Rightarrow> Some (Inl Fault)
         | Some CleanObjError_fn \<Rightarrow>
             Some (Inl (ErrorQuit ''Panic: tried to clean object of unknown type''))
         | Some CleanObjPosObjCopy_fn \<Rightarrow>
             (case obj of
                Ref b \<Rightarrow>
                  (case remove_forwarding_pointer h b of Inl e \<Rightarrow> Some (Inl e)
                   | Inr h1 \<Rightarrow> CleanObjPosObjCopy_subvalues n h1 b 1)
              | _ \<Rightarrow> Some (Inl Fault))
         | Some CleanObjComObjCopy_fn \<Rightarrow>
             (case obj of
                Ref b \<Rightarrow>
                  (case remove_forwarding_pointer h b of Inl e \<Rightarrow> Some (Inl e)
                   | Inr h1 \<Rightarrow> CleanObjComObjCopy_subvalues n h1 b 1)
              | _ \<Rightarrow> Some (Inl Fault))
         | Some CleanObjDatObjCopy_fn \<Rightarrow> Some (CleanObjDatObjCopy h obj)
         | Some _ \<Rightarrow> Some (Inr h)))"
| "CleanObjPosObjCopy_subvalues 0 h b i = None"
| "CleanObjPosObjCopy_subvalues (Suc n) h b i =
     (case SIZE_OBJ h b of Inl e \<Rightarrow> Some (Inl e)
      | Inr sz \<Rightarrow>
        if i < sz div 8 then
          (case get_slot h b i of Inl e \<Rightarrow> Some (Inl e)
           | Inr v \<Rightarrow>
             if v \<noteq> Null then
               (case CLEAN_OBJ n h v of None \<Rightarrow> None
                | Some (Inl e) \<Rightarrow> Some (Inl e)
                | Some (Inr h1) \<Rightarrow> CleanObjPosObjCopy_subvalues n h1 b (i + 1))
             else CleanObjPosObjCopy_subvalues n h b (i + 1))
        else Some (Inr h))"
| "CleanObjComObjCopy_subvalues 0 h b i = None"
| "CleanObjComObjCopy_subvalues (Suc n) h b i =
     (case LEN_PREC h b of Inl e \<Rightarrow> Some (Inl e)
      | Inr len \<Rightarrow>
        if i \<le> len then
          (case GET_ELM_PREC h b i of Inl e \<Rightarrow> Some (Inl e)
           | Inr v \<Rightarrow>
             (case CLEAN_OBJ n h v of None \<Rightarrow> None
              | Some (Inl e) \<Rightarrow> Some (Inl e)
              | Some (Inr h1) \<Rightarrow> CleanObjComObjCopy_subvalues n h1 b (i + 1)))
        else Some (Inr h))"

text \<open>
  \<open>CopyObj\<close> resets \<open>TLS->copiedObjs\<close>, copies, cleans the original and resets the field
  again. The copy and the clean pass each get the fuel \<open>n\<close>.
\<close>

definition CopyObj :: "lib \<Rightarrow> nat \<Rightarrow> heap \<Rightarrow> Obj \<Rightarrow> bool \<Rightarrow> (error + heap \<times> Obj) option" where
  "CopyObj L n h obj mut =
     (case COPY_OBJ L n (h\<lparr>copiedObjs := Null\<rparr>) obj mut of None \<Rightarrow> None
      | Some (Inl e) \<Rightarrow> Some (Inl e)
      | Some (Inr (h1, new)) \<Rightarrow>
          (case CLEAN_OBJ n h1 obj of None \<Rightarrow> None
           | Some (Inl e) \<Rightarrow> Some (Inl e)
           | Some (Inr h2) \<Rightarrow> Some (Inr (h2\<lparr>copiedObjs := Null\<rparr>, new))))"

section \<open>Setting the type of a component object\<close>

text \<open>
  \<open>SET_TYPE_OBJ\<close> dispatches through \<open>SetTypeObjFuncs\<close>. \<open>InitKernel\<close> installs the bodies of
  the three structural kinds, each of which stores the descriptor in the first word, and the
  error body for every other tag; the entries of the atomic tags are installed by another
  module (\<open>aobjects.c\<close>), so the body for the other tags is the parameter \<open>ext\<close>.
\<close>

definition SET_TYPE_OBJ ::
  "(heap \<Rightarrow> Obj \<Rightarrow> Obj \<Rightarrow> error + heap) \<Rightarrow> heap \<Rightarrow> Obj \<Rightarrow> Obj \<Rightarrow> error + heap" where
  "SET_TYPE_OBJ ext h obj kind =
     bindE (TNUM_OBJ h obj) (\<lambda>t.
       if t = T_COMOBJ \<or> t = T_POSOBJ \<or> t = T_DATOBJ
         then (case obj of Ref b \<Rightarrow> set_slot h b 0 kind | _ \<Rightarrow> Inl Fault)
       else ext h obj kind)"

text \<open>
  \<open>SET_TYPE_COMOBJ_Handler\<close>: a \<open>switch\<close> on the tag with two groups of cases and no
  default. The result is the heap and the object returned.
\<close>

definition SET_TYPE_COMOBJ_Handler ::
  "(heap \<Rightarrow> Obj \<Rightarrow> Obj \<Rightarrow> error + heap) \<Rightarrow> heap \<Rightarrow> Obj \<Rightarrow> Obj \<Rightarrow> error + heap \<times> Obj" where
  "SET_TYPE_COMOBJ_Handler ext h obj kind =
     bindE (TNUM_OBJ h obj) (\<lambda>t.
       if t = T_PREC \<or> t = T_COMOBJ then
         (case obj of
            Ref b \<Rightarrow> bindE (set_slot h b 0 kind) (\<lambda>h1.
                     bindE (RetypeBag h1 b T_COMOBJ) (\<lambda>h2. Inr (h2, obj)))
          | _ \<Rightarrow> Inl Fault)
       else if t = T_AREC \<or> t = T_ACOMOBJ then
         (case obj of
            Ref b \<Rightarrow> bindE (SET_TYPE_OBJ ext h obj kind) (\<lambda>h1.
                     bindE (RetypeBag h1 b T_ACOMOBJ) (\<lambda>h2. Inr (h2, obj)))
          | _ \<Rightarrow> Inl Fault)
       else Inr (h, obj))"

section \<open>Cloning\<close>




text \<open>
  Concrete heaps for the examples. Bag 2 is the descriptor of the mutable, copyable objects
  and bag 3 that of the immutable ones (\<open>lib0\<close>). In \<open>heap0\<close>, bag 0 is a mutable positional
  object that holds bag 1 twice and itself once, and bag 1 a mutable positional object that
  holds a small integer. \<open>heap1\<close> adds bag 4, an immutable positional object that holds bag 1.
\<close>

definition lib0 :: lib where
  "lib0 = \<lparr>mutable_kind = (\<lambda>k. k = Ref 2), copyable_kind = (\<lambda>k. k = Ref 2),
           reset_mutable = (\<lambda>k. Ref 3)\<rparr>"

definition heap0 :: heap where
  "heap0 = \<lparr>bags = [0 \<mapsto> \<lparr>tnum = T_POSOBJ, size = 32, slots = [Ref 2, Ref 1, Ref 1, Ref 0]\<rparr>,
                    1 \<mapsto> \<lparr>tnum = T_POSOBJ, size = 16, slots = [Ref 2, IntObj 7]\<rparr>,
                    2 \<mapsto> \<lparr>tnum = T_POSOBJ, size = 8, slots = [Ref 3]\<rparr>,
                    3 \<mapsto> \<lparr>tnum = T_POSOBJ, size = 8, slots = [Ref 3]\<rparr>],
            nextbag = 4, copiedObjs = Null\<rparr>"

definition heap1 :: heap where
  "heap1 = \<lparr>bags = (bags heap0)(4 \<mapsto> \<lparr>tnum = T_POSOBJ, size = 16, slots = [Ref 3, Ref 1]\<rparr>),
            nextbag = 5, copiedObjs = Ref 0\<rparr>"

section \<open>Printing\<close>

text \<open>
  The printer keeps the object being printed (\<open>PrintObjThis\<close>), the index of the subobject
  being printed (\<open>PrintObjIndex\<close>), the depth, and the two arrays of \<open>MAXPRINTDEPTH\<close> entries
  with the ancestors and their indices. What is printed is recorded in \<open>printed\<close>: text
  (\<open>Pr\<close>), the selector that the path printer of an ancestor's type prints for an index
  (\<open>PrPath\<close>; \<open>InitKernel\<close> fills \<open>PrintPathFuncs\<close> with the error body and leaves the real
  ones to the modules of lists and records), the placeholder of \<open>PrintInaccessibleObject\<close>
  and the recoverable error raised on an interrupt.
\<close>

datatype event = Pr string | PrPath Obj int | PrInaccessible Obj | Raised error

record pstate =
  PrintObjThis :: Obj
  PrintObjIndex :: int
  PrintObjDepth :: int
  PrintObjThiss :: "Obj list"
  PrintObjIndices :: "int list"
  LastPV :: nat
  printed :: "event list"

definition MAXPRINTDEPTH :: nat where
  "MAXPRINTDEPTH = 1024"

definition stopped_notice :: string where
  "stopped_notice = CHR 0x0A # ''printing stopped, too many recursion levels!'' @ [CHR 0x0A]"

definition IS_MARKABLE :: "heap \<Rightarrow> Obj \<Rightarrow> error + bool" where
  "IS_MARKABLE h obj =
     bindE (TNUM_OBJ h obj) (\<lambda>t. Inr (FIRST_RECORD_TNUM \<le> t \<and> t \<le> LAST_LIST_TNUM))"

text \<open>
  The loop of \<open>IS_MARKED\<close>, \<open>for (i = 0; i < PrintObjDepth-1; i++)\<close>: the second argument
  is what is left of \<open>PrintObjThiss\<close> from \<open>i\<close> on, the last the number of turns left. The
  index is unsigned, so the bound is \<open>PrintObjDepth-1\<close> taken modulo \<open>2^64\<close>.
\<close>

fun scan_thiss :: "Obj \<Rightarrow> Obj list \<Rightarrow> nat \<Rightarrow> error + bool" where
  "scan_thiss obj xs 0 = Inr False"
| "scan_thiss obj [] (Suc k) = Inl Fault"
| "scan_thiss obj (x # xs) (Suc k) = (if x = obj then Inr True else scan_thiss obj xs k)"

definition IS_MARKED :: "heap \<Rightarrow> pstate \<Rightarrow> Obj \<Rightarrow> error + bool" where
  "IS_MARKED h s obj =
     bindE (IS_MARKABLE h obj) (\<lambda>m.
       if \<not> m then Inr False
       else scan_thiss obj (PrintObjThiss s) (nat ((PrintObjDepth s - 1) mod 2 ^ 64)))"

text \<open>
  The loop that prints the path, \<open>for (i = 0; PrintObjThis != PrintObjThiss[i]; i++)\<close>,
  over what is left of the two arrays from \<open>i\<close> on.
\<close>

fun print_path :: "Obj \<Rightarrow> Obj list \<Rightarrow> int list \<Rightarrow> error + event list" where
  "print_path this (x # xs) (k # ks) =
     (if this = x then Inr []
      else (case print_path this xs ks of Inl e \<Rightarrow> Inl e | Inr evs \<Rightarrow> Inr (PrPath x k # evs)))"
| "print_path this _ _ = Inl Fault"

text \<open>
  The steps of \<open>PrintObj\<close> before the dispatch: the interrupt check (the break loop is left
  by \<open>return;\<close>), the test whether the call comes from \<open>ViewObj\<close> of the same object, saving
  the superobject in the arrays, and making \<open>obj\<close> the current object. The result is the
  state, \<open>fromview\<close> and the saved \<open>LastPV\<close>.
\<close>

definition PrintObj_enter :: "bool \<Rightarrow> pstate \<Rightarrow> Obj \<Rightarrow> error + pstate \<times> bool \<times> nat" where
  "PrintObj_enter intr s obj =
     (let s0 = (if intr
                then s\<lparr>printed := printed s @ [Pr [CHR 0x03, CHR 0x04],
                        Raised (ErrorReturnVoid ''user interrupt while printing'')]\<rparr>
                else s);
          lastPV = LastPV s0;
          s1 = s0\<lparr>LastPV := 1\<rparr>;
          fromview = (lastPV = 2 \<and> obj = PrintObjThis s1)
      in bindE
           (if \<not> fromview \<and> 0 < PrintObjDepth s1 then
              (if nat (PrintObjDepth s1 - 1) < length (PrintObjThiss s1) \<and>
                  nat (PrintObjDepth s1 - 1) < length (PrintObjIndices s1)
               then Inr (s1\<lparr>PrintObjThiss :=
                              (PrintObjThiss s1)[nat (PrintObjDepth s1 - 1) := PrintObjThis s1],
                            PrintObjIndices :=
                              (PrintObjIndices s1)[nat (PrintObjDepth s1 - 1) := PrintObjIndex s1]\<rparr>)
               else Inl Fault)
            else Inr s1)
           (\<lambda>s2. Inr (if \<not> fromview
                       then s2\<lparr>PrintObjDepth := PrintObjDepth s2 + 1, PrintObjThis := obj,
                               PrintObjIndex := 0\<rparr>
                       else s2, fromview, lastPV)))"

text \<open>
  The dispatch: the print body of the type (the parameter \<open>body\<close>: \<open>InitKernel\<close> makes every
  entry of \<open>PrintObjFuncs\<close> call the library's operation), the notice, or the path.
\<close>

definition PrintObj_dispatch ::
  "heap \<Rightarrow> (Obj \<Rightarrow> pstate \<Rightarrow> error + pstate) \<Rightarrow> pstate \<Rightarrow> error + pstate" where
  "PrintObj_dispatch h body s =
     bindE (IS_MARKED h s (PrintObjThis s)) (\<lambda>m.
       if \<not> m then
         (if PrintObjDepth s < int MAXPRINTDEPTH then body (PrintObjThis s) s
          else Inr (s\<lparr>printed := printed s @ [Pr stopped_notice]\<rparr>))
       else
         bindE (print_path (PrintObjThis s) (PrintObjThiss s) (PrintObjIndices s)) (\<lambda>evs.
           Inr (s\<lparr>printed := printed s @ Pr ''~'' # evs\<rparr>)))"

text \<open>The steps after the dispatch: restoring the superobject and \<open>LastPV\<close>.\<close>

definition PrintObj_leave :: "bool \<Rightarrow> nat \<Rightarrow> pstate \<Rightarrow> error + pstate" where
  "PrintObj_leave fromview lastPV s =
     bindE
       (if \<not> fromview then
          (let s1 = s\<lparr>PrintObjDepth := PrintObjDepth s - 1\<rparr> in
           if 0 < PrintObjDepth s1 then
             (if nat (PrintObjDepth s1 - 1) < length (PrintObjThiss s1) \<and>
                 nat (PrintObjDepth s1 - 1) < length (PrintObjIndices s1)
              then Inr (s1\<lparr>PrintObjThis := PrintObjThiss s1 ! nat (PrintObjDepth s1 - 1),
                           PrintObjIndex := PrintObjIndices s1 ! nat (PrintObjDepth s1 - 1)\<rparr>)
              else Inl Fault)
           else Inr s1)
        else Inr s)
       (\<lambda>s2. Inr (s2\<lparr>LastPV := lastPV\<rparr>))"

text \<open>
  \<open>PrintObj\<close>. \<open>intr\<close> is what \<open>SyIsIntr()\<close> answers and \<open>CheckRead\<close> the test of the region
  module whether the calling thread may read the object.
\<close>

definition PrintObj ::
  "heap \<Rightarrow> bool \<Rightarrow> (Obj \<Rightarrow> bool) \<Rightarrow> (Obj \<Rightarrow> pstate \<Rightarrow> error + pstate) \<Rightarrow>
   pstate \<Rightarrow> Obj \<Rightarrow> error + pstate" where
  "PrintObj h intr CheckRead body s obj =
     (let s0 = (if intr
                then s\<lparr>printed := printed s @ [Pr [CHR 0x03, CHR 0x04],
                        Raised (ErrorReturnVoid ''user interrupt while printing'')]\<rparr>
                else s)
      in if (case obj of Ref _ \<Rightarrow> True | _ \<Rightarrow> False) \<and> \<not> CheckRead obj
         then Inr (s0\<lparr>printed := printed s0 @ [PrInaccessible obj]\<rparr>)
         else
           bindE (PrintObj_enter intr s obj) (\<lambda>(s1, fromview, lastPV).
           bindE (PrintObj_dispatch h body s1) (\<lambda>s2.
           PrintObj_leave fromview lastPV s2)))"

text \<open>
  The selectors that the specification describes for a back reference: those of the
  ancestors "from the nearest matching ancestor down to the current position", that is,
  from the last of the \<open>d\<close> saved ancestors that is the object itself to the last one.
\<close>

fun nearest_match :: "Obj \<Rightarrow> (Obj \<times> int) list \<Rightarrow> (Obj \<times> int) list" where
  "nearest_match this [] = []"
| "nearest_match this (a # as) =
     (if this \<in> fst ` set as then nearest_match this as
      else if fst a = this then a # as else [])"

definition spec_back_reference :: "pstate \<Rightarrow> event list" where
  "spec_back_reference s =
     Pr ''~'' # map (\<lambda>(x, k). PrPath x k)
       (nearest_match (PrintObjThis s)
          (take (nat (PrintObjDepth s - 1)) (zip (PrintObjThiss s) (PrintObjIndices s))))"

text \<open>
  A printer state in the middle of printing: the list 10 is being printed, at its second
  entry, which is the list 11, at whose third entry the printer is. \<open>heap2\<close> holds the two
  plain lists.
\<close>

definition heap2 :: heap where
  "heap2 = \<lparr>bags = [10 \<mapsto> \<lparr>tnum = T_PLIST, size = 24, slots = [IntObj 2, IntObj 1, Ref 11]\<rparr>,
                    11 \<mapsto> \<lparr>tnum = T_PLIST, size = 32,
                            slots = [IntObj 3, IntObj 1, IntObj 2, Ref 11]\<rparr>],
            nextbag = 12, copiedObjs = Null\<rparr>"

definition pstate0 :: pstate where
  "pstate0 = \<lparr>PrintObjThis = Ref 11, PrintObjIndex = 3, PrintObjDepth = 2,
              PrintObjThiss = (replicate 1024 Null)[0 := Ref 10],
              PrintObjIndices = (replicate 1024 0)[0 := 2],
              LastPV = 1, printed = []\<rparr>"

text \<open>
  What a call of \<open>PrintObj\<close> has printed when it returns, and what the specification's
  description of a back reference makes it print; a \<open>CheckRead\<close> that lets every object be
  read, and a print body that prints nothing.
\<close>

definition PrintObj_printed ::
  "heap \<Rightarrow> bool \<Rightarrow> (Obj \<Rightarrow> bool) \<Rightarrow> (Obj \<Rightarrow> pstate \<Rightarrow> error + pstate) \<Rightarrow>
   pstate \<Rightarrow> Obj \<Rightarrow> error + event list" where
  "PrintObj_printed h intr CheckRead body s obj =
     (case PrintObj h intr CheckRead body s obj of Inl e \<Rightarrow> Inl e | Inr s' \<Rightarrow> Inr (printed s'))"

definition spec_printed :: "bool \<Rightarrow> pstate \<Rightarrow> Obj \<Rightarrow> error + event list" where
  "spec_printed intr s obj =
     (case PrintObj_enter intr s obj of Inl e \<Rightarrow> Inl e
      | Inr (s1, fromview, lastPV) \<Rightarrow> Inr (printed s1 @ spec_back_reference s1))"

definition CheckRead_all :: "Obj \<Rightarrow> bool" where
  "CheckRead_all obj = True"

definition body_skip :: "Obj \<Rightarrow> pstate \<Rightarrow> error + pstate" where
  "body_skip obj s = Inr s"

text \<open>
  \<open>pstate1\<close> is \<open>pstate0\<close> after the opening steps of \<open>PrintObj\<close> for the list 11. \<open>pstate2\<close> is
  a printer at depth 1023 and \<open>pstate3\<close> that state after the opening steps for a small
  integer.
\<close>

definition pstate1 :: pstate where
  "pstate1 = \<lparr>PrintObjThis = Ref 11, PrintObjIndex = 0, PrintObjDepth = 3,
              PrintObjThiss = (replicate 1024 Null)[0 := Ref 10, 1 := Ref 11],
              PrintObjIndices = (replicate 1024 0)[0 := 2, 1 := 3],
              LastPV = 1, printed = []\<rparr>"

definition pstate2 :: pstate where
  "pstate2 = \<lparr>PrintObjThis = Ref 11, PrintObjIndex = 3, PrintObjDepth = 1023,
              PrintObjThiss = replicate 1024 (Ref 10),
              PrintObjIndices = replicate 1024 2,
              LastPV = 1, printed = []\<rparr>"

definition pstate3 :: pstate where
  "pstate3 = \<lparr>PrintObjThis = IntObj 5, PrintObjIndex = 0, PrintObjDepth = 1024,
              PrintObjThiss = (replicate 1024 (Ref 10))[1022 := Ref 11],
              PrintObjIndices = (replicate 1024 2)[1022 := 3],
              LastPV = 1, printed = []\<rparr>"

section \<open>Saving and loading\<close>

text \<open>
  Modelled from the spec: the framer (\<open>saveload.c\<close>) is not among the sources; it offers
  "emit/read sub-object reference" and "emit/read fixed-width integer". The stream is the
  list of what was emitted. Reading a reference where an integer was written, or reading
  past the end, is a fault.
\<close>

datatype item = SubObj Obj | UIntW nat

definition LoadSubObj :: "item list \<Rightarrow> error + Obj \<times> item list" where
  "LoadSubObj st = (case st of SubObj v # r \<Rightarrow> Inr (v, r) | _ \<Rightarrow> Inl Fault)"

definition LoadUInt :: "item list \<Rightarrow> error + nat \<times> item list" where
  "LoadUInt st = (case st of UIntW n # r \<Rightarrow> Inr (n, r) | _ \<Rightarrow> Inl Fault)"

text \<open>
  The loops \<open>for (i = 1; i <= len; i++)\<close> of the six bodies: the arguments are the index
  \<open>i\<close> and the number of turns left.
\<close>

fun SaveComObj_fields :: "heap \<Rightarrow> nat \<Rightarrow> nat \<Rightarrow> nat \<Rightarrow> error + item list" where
  "SaveComObj_fields h b i 0 = Inr []"
| "SaveComObj_fields h b i (Suc k) =
     (case GET_RNAM_PREC h b i of Inl e \<Rightarrow> Inl e
      | Inr r \<Rightarrow>
        (case GET_ELM_PREC h b i of Inl e \<Rightarrow> Inl e
         | Inr v \<Rightarrow>
           (case SaveComObj_fields h b (Suc i) k of Inl e \<Rightarrow> Inl e
            | Inr rest \<Rightarrow> Inr (UIntW r # SubObj v # rest))))"

definition SaveComObj :: "heap \<Rightarrow> Obj \<Rightarrow> error + item list" where
  "SaveComObj h comobj =
     (case comobj of
        Ref b \<Rightarrow>
          bindE (get_slot h b 0) (\<lambda>k.
          bindE (LEN_PREC h b) (\<lambda>len.
          bindE (SaveComObj_fields h b 1 len) (\<lambda>rest.
          Inr (SubObj k # UIntW len # rest))))
      | _ \<Rightarrow> Inl Fault)"

fun SavePosObj_slots :: "heap \<Rightarrow> nat \<Rightarrow> nat \<Rightarrow> nat \<Rightarrow> error + item list" where
  "SavePosObj_slots h b i 0 = Inr []"
| "SavePosObj_slots h b i (Suc k) =
     (case get_slot h b i of Inl e \<Rightarrow> Inl e
      | Inr v \<Rightarrow>
        (case SavePosObj_slots h b (Suc i) k of Inl e \<Rightarrow> Inl e
         | Inr rest \<Rightarrow> Inr (SubObj v # rest)))"

definition SavePosObj :: "heap \<Rightarrow> Obj \<Rightarrow> error + item list" where
  "SavePosObj h posobj =
     (case posobj of
        Ref b \<Rightarrow>
          bindE (get_slot h b 0) (\<lambda>k.
          bindE (SIZE_OBJ h b) (\<lambda>sz.
          bindE (SavePosObj_slots h b 1 ((sz div 8 + 2 ^ 64 - 1) mod 2 ^ 64)) (\<lambda>rest.
          Inr (SubObj k # rest))))
      | _ \<Rightarrow> Inl Fault)"

fun SaveDatObj_words :: "heap \<Rightarrow> nat \<Rightarrow> nat \<Rightarrow> nat \<Rightarrow> error + item list" where
  "SaveDatObj_words h b i 0 = Inr []"
| "SaveDatObj_words h b i (Suc k) =
     (case bindE (get_slot h b i) UINT of Inl e \<Rightarrow> Inl e
      | Inr w \<Rightarrow>
        (case SaveDatObj_words h b (Suc i) k of Inl e \<Rightarrow> Inl e
         | Inr rest \<Rightarrow> Inr (UIntW w # rest)))"

definition SaveDatObj :: "heap \<Rightarrow> Obj \<Rightarrow> error + item list" where
  "SaveDatObj h datobj =
     (case datobj of
        Ref b \<Rightarrow>
          bindE (get_slot h b 0) (\<lambda>k.
          bindE (SIZE_OBJ h b) (\<lambda>sz.
          bindE (SaveDatObj_words h b 1 (((sz + 8 - 1) div 8 + 2 ^ 64 - 1) mod 2 ^ 64)) (\<lambda>rest.
          Inr (SubObj k # rest))))
      | _ \<Rightarrow> Inl Fault)"

fun LoadComObj_fields :: "heap \<Rightarrow> nat \<Rightarrow> nat \<Rightarrow> nat \<Rightarrow> item list \<Rightarrow> error + heap \<times> item list" where
  "LoadComObj_fields h b i 0 st = Inr (h, st)"
| "LoadComObj_fields h b i (Suc k) st =
     (case LoadUInt st of Inl e \<Rightarrow> Inl e
      | Inr (r, st1) \<Rightarrow>
        (case SET_RNAM_PREC h b i r of Inl e \<Rightarrow> Inl e
         | Inr h1 \<Rightarrow>
           (case LoadSubObj st1 of Inl e \<Rightarrow> Inl e
            | Inr (v, st2) \<Rightarrow>
              (case SET_ELM_PREC h1 b i v of Inl e \<Rightarrow> Inl e
               | Inr h2 \<Rightarrow> LoadComObj_fields h2 b (Suc i) k st2))))"

definition LoadComObj :: "heap \<Rightarrow> Obj \<Rightarrow> item list \<Rightarrow> error + heap \<times> item list" where
  "LoadComObj h comobj st =
     (case comobj of
        Ref b \<Rightarrow>
          bindE (LoadSubObj st) (\<lambda>(k, st1).
          bindE (set_slot h b 0 k) (\<lambda>h1.
          bindE (LoadUInt st1) (\<lambda>(len, st2).
          bindE (SET_LEN_PREC h1 b len) (\<lambda>h2.
          LoadComObj_fields h2 b 1 len st2))))
      | _ \<Rightarrow> Inl Fault)"

fun LoadPosObj_slots :: "heap \<Rightarrow> nat \<Rightarrow> nat \<Rightarrow> nat \<Rightarrow> item list \<Rightarrow> error + heap \<times> item list" where
  "LoadPosObj_slots h b i 0 st = Inr (h, st)"
| "LoadPosObj_slots h b i (Suc k) st =
     (case LoadSubObj st of Inl e \<Rightarrow> Inl e
      | Inr (v, st1) \<Rightarrow>
        (case set_slot h b i v of Inl e \<Rightarrow> Inl e
         | Inr h1 \<Rightarrow> LoadPosObj_slots h1 b (Suc i) k st1))"

definition LoadPosObj :: "heap \<Rightarrow> Obj \<Rightarrow> item list \<Rightarrow> error + heap \<times> item list" where
  "LoadPosObj h posobj st =
     (case posobj of
        Ref b \<Rightarrow>
          bindE (LoadSubObj st) (\<lambda>(k, st1).
          bindE (set_slot h b 0 k) (\<lambda>h1.
          bindE (SIZE_OBJ h1 b) (\<lambda>sz.
          LoadPosObj_slots h1 b 1 ((sz div 8 + 2 ^ 64 - 1) mod 2 ^ 64) st1)))
      | _ \<Rightarrow> Inl Fault)"

fun LoadDatObj_words :: "heap \<Rightarrow> nat \<Rightarrow> nat \<Rightarrow> nat \<Rightarrow> item list \<Rightarrow> error + heap \<times> item list" where
  "LoadDatObj_words h b i 0 st = Inr (h, st)"
| "LoadDatObj_words h b i (Suc k) st =
     (case LoadUInt st of Inl e \<Rightarrow> Inl e
      | Inr (w, st1) \<Rightarrow>
        (case set_slot h b i (Word w) of Inl e \<Rightarrow> Inl e
         | Inr h1 \<Rightarrow> LoadDatObj_words h1 b (Suc i) k st1))"

definition LoadDatObj :: "heap \<Rightarrow> Obj \<Rightarrow> item list \<Rightarrow> error + heap \<times> item list" where
  "LoadDatObj h datobj st =
     (case datobj of
        Ref b \<Rightarrow>
          bindE (LoadSubObj st) (\<lambda>(k, st1).
          bindE (set_slot h b 0 k) (\<lambda>h1.
          bindE (SIZE_OBJ h1 b) (\<lambda>sz.
          LoadDatObj_words h1 b 1 (((sz + 8 - 1) div 8 + 2 ^ 64 - 1) mod 2 ^ 64) st1)))
      | _ \<Rightarrow> Inl Fault)"

text \<open>
  The words that a list of components (name and value) occupies in a component object, and
  the items it occupies in the stream.
\<close>

fun fields_words :: "(nat \<times> Obj) list \<Rightarrow> Obj list" where
  "fields_words [] = []"
| "fields_words ((r, v) # fs) = Word r # v # fields_words fs"

fun fields_items :: "(nat \<times> Obj) list \<Rightarrow> item list" where
  "fields_items [] = []"
| "fields_items ((r, v) # fs) = UIntW r # SubObj v # fields_items fs"

text \<open>
  Bags for the examples: a component object with two components and room for a third, a
  data object of 20 bytes, and empty cells of the same tags and sizes to load into.
\<close>

definition heap3 :: heap where
  "heap3 = \<lparr>bags = [0 \<mapsto> \<lparr>tnum = T_COMOBJ, size = 64,
                            slots = [Ref 2, Word 2, Word 17, IntObj 1, Word 19, Ref 1, Null, Null]\<rparr>,
                    1 \<mapsto> \<lparr>tnum = T_DATOBJ, size = 20, slots = [Ref 2, Word 7, Word 9]\<rparr>,
                    2 \<mapsto> \<lparr>tnum = T_POSOBJ, size = 16, slots = [Ref 2, Ref 1]\<rparr>,
                    5 \<mapsto> \<lparr>tnum = T_COMOBJ, size = 64, slots = replicate 8 Null\<rparr>,
                    6 \<mapsto> \<lparr>tnum = T_DATOBJ, size = 20, slots = replicate 3 Null\<rparr>,
                    7 \<mapsto> \<lparr>tnum = T_POSOBJ, size = 16, slots = replicate 2 Null\<rparr>],
            nextbag = 8, copiedObjs = Null\<rparr>"

section \<open>Region ownership and identity exchange\<close>

text \<open>
  A region has an owning thread or none. Every master pointer carries the address of the
  bag's body (\<open>PTR_BAG\<close>) and a region pointer (\<open>DS_BAG\<close>), null for the public region.
\<close>

record Region =
  owner :: "nat option"

record masterptrs =
  PTR_BAG :: "nat \<Rightarrow> nat"
  DS_BAG :: "nat \<Rightarrow> nat option"
  regions :: "nat \<Rightarrow> Region"

text \<open>The test \<open>!ds || ds->owner != TLS\<close> of \<open>FuncSWITCH_OBJ\<close>.\<close>

definition switch_refused :: "nat \<Rightarrow> masterptrs \<Rightarrow> nat option \<Rightarrow> bool" where
  "switch_refused tls s ds =
     (case ds of None \<Rightarrow> True | Some r \<Rightarrow> owner (regions s r) \<noteq> Some tls)"

text \<open>The test \<open>ds && ds->owner != TLS\<close> of \<open>FuncFORCE_SWITCH_OBJ\<close>.\<close>

definition force_switch_refused :: "nat \<Rightarrow> masterptrs \<Rightarrow> nat option \<Rightarrow> bool" where
  "force_switch_refused tls s ds =
     (case ds of None \<Rightarrow> False | Some r \<Rightarrow> owner (regions s r) \<noteq> Some tls)"

text \<open>The four assignments that exchange body pointer and region pointer.\<close>

definition exchange :: "masterptrs \<Rightarrow> nat \<Rightarrow> nat \<Rightarrow> masterptrs" where
  "exchange s a b =
     (let ptr1 = PTR_BAG s a; ptr2 = PTR_BAG s b; ds1 = DS_BAG s a; ds2 = DS_BAG s b;
          s1 = s\<lparr>DS_BAG := (DS_BAG s)(b := ds1)\<rparr>;
          s2 = s1\<lparr>PTR_BAG := (PTR_BAG s1)(b := ptr1)\<rparr>;
          s3 = s2\<lparr>DS_BAG := (DS_BAG s2)(a := ds2)\<rparr>
      in s3\<lparr>PTR_BAG := (PTR_BAG s3)(a := ptr2)\<rparr>)"

text \<open>
  \<open>FuncSWITCH_OBJ\<close>: the result is the state of the master pointers and the error raised,
  if any. \<open>CHANGED_BAG\<close> is bookkeeping of the collector and changes none of these fields.
\<close>

fun FuncSWITCH_OBJ :: "nat \<Rightarrow> masterptrs \<Rightarrow> Obj \<Rightarrow> Obj \<Rightarrow> masterptrs \<times> error option" where
  "FuncSWITCH_OBJ tls s obj1 obj2 =
     (if IS_INTOBJ obj1 \<or> IS_INTOBJ obj2
        then (s, Some (ErrorReturnVoid ''small integer objects cannot be switched''))
      else if IS_FFE obj1 \<or> IS_FFE obj2
        then (s, Some (ErrorReturnVoid ''finite field elements cannot be switched''))
      else (case (obj1, obj2) of
          (Ref a, Ref b) \<Rightarrow>
            if switch_refused tls s (DS_BAG s a)
              then (s, Some (ErrorQuit ''SWITCH_OBJ: Cannot write to first object's region.''))
            else if switch_refused tls s (DS_BAG s b)
              then (s, Some (ErrorQuit ''SWITCH_OBJ: Cannot write to second object's region.''))
            else (exchange s a b, None)
        | _ \<Rightarrow> (s, Some Fault)))"

fun FuncFORCE_SWITCH_OBJ :: "nat \<Rightarrow> masterptrs \<Rightarrow> Obj \<Rightarrow> Obj \<Rightarrow> masterptrs \<times> error option" where
  "FuncFORCE_SWITCH_OBJ tls s obj1 obj2 =
     (if IS_INTOBJ obj1 \<or> IS_INTOBJ obj2
        then (s, Some (ErrorReturnVoid ''small integer objects cannot be switched''))
      else if IS_FFE obj1 \<or> IS_FFE obj2
        then (s, Some (ErrorReturnVoid ''finite field elements cannot be switched''))
      else (case (obj1, obj2) of
          (Ref a, Ref b) \<Rightarrow>
            if force_switch_refused tls s (DS_BAG s a)
              then (s, Some (ErrorQuit ''FORCE_SWITCH_OBJ: Cannot write to first object's region.''))
            else if force_switch_refused tls s (DS_BAG s b)
              then (s, Some (ErrorQuit ''FORCE_SWITCH_OBJ: Cannot write to second object's region.''))
            else (exchange s a b, None)
        | _ \<Rightarrow> (s, Some Fault)))"

text \<open>
  A concrete table of master pointers: bag 0 lies in region 0, owned by thread 1 (the
  caller in the examples), as does bag 3; bag 1 lies in region 1, owned by thread 2, and every
  other bag in the public region.
\<close>

definition mp0 :: masterptrs where
  "mp0 = \<lparr>PTR_BAG = (\<lambda>b. 100 + b),
          DS_BAG = (\<lambda>b. if b = 0 \<or> b = 3 then Some 0 else if b = 1 then Some 1 else None),
          regions = (\<lambda>r. \<lparr>owner = (if r = 0 then Some 1 else Some 2)\<rparr>)\<rparr>"

text \<open>The two ownership notions of the specification, read off a master pointer.\<close>

definition owned_by :: "nat \<Rightarrow> masterptrs \<Rightarrow> nat \<Rightarrow> bool" where
  "owned_by tls s b =
     (case DS_BAG s b of None \<Rightarrow> False | Some r \<Rightarrow> owner (regions s r) = Some tls)"

definition in_public_region :: "masterptrs \<Rightarrow> nat \<Rightarrow> bool" where
  "in_public_region s b = (DS_BAG s b = None)"

definition exchanged :: "masterptrs \<Rightarrow> masterptrs \<Rightarrow> nat \<Rightarrow> nat \<Rightarrow> bool" where
  "exchanged s s' a b =
     (PTR_BAG s' a = PTR_BAG s b \<and> PTR_BAG s' b = PTR_BAG s a \<and>
      DS_BAG s' a = DS_BAG s b \<and> DS_BAG s' b = DS_BAG s a \<and>
      regions s' = regions s)"

section \<open>The state of a heap during a deep copy\<close>

text \<open>
  A heap is in order when nothing is allocated from \<open>nextbag\<close> on, no bag carries a tag
  beyond the real ones (so none is tagged as being copied), and every bag reference that a
  bag holds is one of an allocated address.
\<close>

definition closed_val :: "nat \<Rightarrow> Obj \<Rightarrow> bool" where
  "closed_val n v = (case v of Ref k \<Rightarrow> k < n | _ \<Rightarrow> True)"

definition heap_ok :: "heap \<Rightarrow> bool" where
  "heap_ok h =
     ((\<forall>k. nextbag h \<le> k \<longrightarrow> bags h k = None) \<and>
      (\<forall>b x. bags h b = Some x \<longrightarrow>
         tnum x \<le> LAST_REAL_TNUM \<and> (\<forall>v \<in> set (slots x). closed_val (nextbag h) v)))"

text \<open>
  \<open>marked_as h0 h b c\<close>: in \<open>h\<close> the bag \<open>b\<close> of the heap \<open>h0\<close>, in which the copy started, is
  being copied into the new bag \<open>c\<close>: it is one of the three structural kinds, carries its
  tag plus \<open>COPYING\<close>, and its first word refers to the forwarding record \<open>c+1\<close>, which
  holds the original first word and \<open>c\<close>. \<open>copy_inv h0 h\<close>: every bag of \<open>h0\<close> is as it was or
  marked, and the bags allocated since carry real tags.
\<close>

definition marked_as :: "heap \<Rightarrow> heap \<Rightarrow> nat \<Rightarrow> nat \<Rightarrow> bool" where
  "marked_as h0 h b c =
     (case bags h0 b of None \<Rightarrow> False
      | Some x \<Rightarrow>
          (tnum x = T_POSOBJ \<or> tnum x = T_COMOBJ \<or> tnum x = T_DATOBJ) \<and> slots x \<noteq> [] \<and>
          nextbag h0 \<le> c \<and>
          bags h b = Some (x\<lparr>tnum := tnum x + COPYING, slots := (slots x)[0 := Ref (Suc c)]\<rparr>) \<and>
          (case bags h (Suc c) of None \<Rightarrow> False
           | Some f \<Rightarrow> slots f = [IntObj 2, slots x ! 0, Ref c]))"

definition copy_inv :: "heap \<Rightarrow> heap \<Rightarrow> bool" where
  "copy_inv h0 h =
     (nextbag h0 \<le> nextbag h \<and> (\<forall>k. nextbag h \<le> k \<longrightarrow> bags h k = None) \<and>
      (\<forall>b. b < nextbag h0 \<longrightarrow> bags h b = bags h0 b \<or> (\<exists>c. marked_as h0 h b c)) \<and>
      (\<forall>k y. nextbag h0 \<le> k \<longrightarrow> bags h k = Some y \<longrightarrow> tnum y \<le> LAST_REAL_TNUM))"

text \<open>
  \<open>child h0 w v\<close>: the loops over the subvalues of \<open>w\<close> come across the bag \<open>v\<close>. The two
  relations \<open>copy_step\<close> and \<open>parented\<close> say what a part of the copy pass does between two
  heaps: marks stay, new marks use new bags, the new bags that exist already keep their
  contents (but for those in \<open>S\<close>); and every bag marked in between is the root or a child
  of a bag marked before it.
\<close>

definition child :: "heap \<Rightarrow> nat \<Rightarrow> nat \<Rightarrow> bool" where
  "child h0 w v =
     (case bags h0 w of None \<Rightarrow> False
      | Some x \<Rightarrow>
          (tnum x = T_POSOBJ \<and>
           (\<exists>i. 1 \<le> i \<and> i < size x div 8 \<and> i < length (slots x) \<and> slots x ! i = Ref v)) \<or>
          (tnum x = T_COMOBJ \<and>
           (\<exists>i len. 1 < length (slots x) \<and> slots x ! 1 = Word len \<and> 1 \<le> i \<and> i \<le> len \<and>
              2 * i + 1 < length (slots x) \<and> slots x ! (2 * i + 1) = Ref v)))"

definition copy_step :: "heap \<Rightarrow> heap \<Rightarrow> heap \<Rightarrow> nat set \<Rightarrow> bool" where
  "copy_step h0 h h' S =
     (copy_inv h0 h' \<and> nextbag h \<le> nextbag h' \<and>
      (\<forall>b c. marked_as h0 h b c \<longrightarrow> marked_as h0 h' b c) \<and>
      (\<forall>b c. marked_as h0 h' b c \<longrightarrow> marked_as h0 h b c \<or> nextbag h \<le> c) \<and>
      (\<forall>k. nextbag h0 \<le> k \<and> k < nextbag h \<and> k \<notin> S \<longrightarrow> bags h' k = bags h k))"

definition parented :: "heap \<Rightarrow> heap \<Rightarrow> heap \<Rightarrow> Obj option \<Rightarrow> bool" where
  "parented h0 h h' root =
     (\<forall>w c. marked_as h0 h' w c \<and> nextbag h \<le> c \<longrightarrow>
        root = Some (Ref w) \<or> (\<exists>w' c'. marked_as h0 h' w' c' \<and> c' < c \<and> child h0 w' w))"

text \<open>
  What is shown by induction on the fuel for \<open>COPY_OBJ\<close> and its two loops.
\<close>

definition copy_ok :: "lib \<Rightarrow> heap \<Rightarrow> nat \<Rightarrow> bool" where
  "copy_ok L h0 n =
     (\<forall>h obj mut h' r. copy_inv h0 h \<longrightarrow> closed_val (nextbag h0) obj \<longrightarrow>
        COPY_OBJ L n h obj mut = Some (Inr (h', r)) \<longrightarrow>
        copy_step h0 h h' {} \<and> parented h0 h h' (Some obj))"

definition pos_ok :: "lib \<Rightarrow> heap \<Rightarrow> nat \<Rightarrow> bool" where
  "pos_ok L h0 n =
     (\<forall>h b cb c0 mut i h' x. copy_inv h0 h \<longrightarrow> marked_as h0 h b cb \<longrightarrow>
        bags h0 b = Some x \<longrightarrow> tnum x = T_POSOBJ \<longrightarrow> nextbag h0 \<le> c0 \<longrightarrow> c0 < nextbag h \<longrightarrow>
        (\<forall>b' c'. marked_as h0 h b' c' \<longrightarrow> Suc c' \<noteq> c0) \<longrightarrow> 1 \<le> i \<longrightarrow>
        CopyObjPosObj_subvalues L n h b c0 mut i = Some (Inr h') \<longrightarrow>
        copy_step h0 h h' {c0} \<and> parented h0 h h' None)"

definition com_ok :: "lib \<Rightarrow> heap \<Rightarrow> nat \<Rightarrow> bool" where
  "com_ok L h0 n =
     (\<forall>h b cb c0 mut i h' x. copy_inv h0 h \<longrightarrow> marked_as h0 h b cb \<longrightarrow>
        bags h0 b = Some x \<longrightarrow> tnum x = T_COMOBJ \<longrightarrow> nextbag h0 \<le> c0 \<longrightarrow> c0 < nextbag h \<longrightarrow>
        (\<forall>b' c'. marked_as h0 h b' c' \<longrightarrow> Suc c' \<noteq> c0) \<longrightarrow> 1 \<le> i \<longrightarrow>
        CopyObjComObj_subvalues L n h b c0 mut i = Some (Inr h') \<longrightarrow>
        copy_step h0 h h' {c0} \<and> parented h0 h h' None)"

text \<open>
  \<open>clean_step\<close> says what a part of the clean pass does between two heaps: the new bags
  stay as they are, a bag of \<open>h0\<close> stays as it is or is restored, and when a bag (not in
  \<open>E\<close>) has been restored, so have its children. Below it, what is shown by induction on
  the fuel for \<open>CLEAN_OBJ\<close> and its two loops.
\<close>

definition clean_step :: "heap \<Rightarrow> heap \<Rightarrow> heap \<Rightarrow> nat set \<Rightarrow> bool" where
  "clean_step h0 h h' E =
     (copy_inv h0 h' \<and> nextbag h' = nextbag h \<and>
      (\<forall>k. nextbag h0 \<le> k \<longrightarrow> bags h' k = bags h k) \<and>
      (\<forall>b. b < nextbag h0 \<longrightarrow> bags h' b = bags h b \<or> bags h' b = bags h0 b) \<and>
      (\<forall>w v. w \<notin> E \<and> bags h w \<noteq> bags h0 w \<and> bags h' w = bags h0 w \<and> child h0 w v \<longrightarrow>
         bags h' v = bags h0 v))"

definition clean_ok :: "heap \<Rightarrow> nat \<Rightarrow> bool" where
  "clean_ok h0 n =
     (\<forall>h obj h'. copy_inv h0 h \<longrightarrow> closed_val (nextbag h0) obj \<longrightarrow>
        CLEAN_OBJ n h obj = Some (Inr h') \<longrightarrow>
        clean_step h0 h h' {} \<and> (\<forall>b. obj = Ref b \<longrightarrow> bags h' b = bags h0 b))"

definition cpos_ok :: "heap \<Rightarrow> nat \<Rightarrow> bool" where
  "cpos_ok h0 n =
     (\<forall>h b i h' x. copy_inv h0 h \<longrightarrow> bags h b = bags h0 b \<longrightarrow> bags h0 b = Some x \<longrightarrow> 1 \<le> i \<longrightarrow>
        CleanObjPosObjCopy_subvalues n h b i = Some (Inr h') \<longrightarrow>
        clean_step h0 h h' {} \<and>
        (\<forall>j v. i \<le> j \<and> j < size x div 8 \<and> j < length (slots x) \<and> slots x ! j = Ref v \<longrightarrow>
           bags h' v = bags h0 v))"

definition ccom_ok :: "heap \<Rightarrow> nat \<Rightarrow> bool" where
  "ccom_ok h0 n =
     (\<forall>h b i h' x. copy_inv h0 h \<longrightarrow> bags h b = bags h0 b \<longrightarrow> bags h0 b = Some x \<longrightarrow> 1 \<le> i \<longrightarrow>
        CleanObjComObjCopy_subvalues n h b i = Some (Inr h') \<longrightarrow>
        clean_step h0 h h' {} \<and>
        (\<forall>j v len. 1 < length (slots x) \<and> slots x ! 1 = Word len \<and> i \<le> j \<and> j \<le> len \<and>
           2 * j + 1 < length (slots x) \<and> slots x ! (2 * j + 1) = Ref v \<longrightarrow>
           bags h' v = bags h0 v))"

section \<open>Sharing in a deep copy\<close>

text \<open>
  \<open>fwd h v\<close> is what a visit of \<open>v\<close> in the heap \<open>h\<close> answers without copying anything: the
  second entry of the forwarding record when \<open>v\<close> carries a tag beyond the real ones, read
  as \<open>CopyObjPosObjCopy\<close> reads it, and \<open>v\<close> itself otherwise.
\<close>

definition fwd :: "heap \<Rightarrow> Obj \<Rightarrow> Obj" where
  "fwd h v =
     (case TNUM_OBJ h v of Inl e \<Rightarrow> v
      | Inr t \<Rightarrow>
          if LAST_REAL_TNUM < t
          then (case CopyObjPosObjCopy h v of Inl e \<Rightarrow> v | Inr (h', c) \<Rightarrow> c)
          else v)"

text \<open>
  The state of the copy pass between two visits. \<open>mut_marks\<close>: only objects that were
  mutable when the copy started are marked. \<open>val_done\<close>: nothing is left to do for the
  subvalue \<open>v\<close> (it is empty, marked, or was immutable). \<open>slot_copied\<close>: word \<open>j\<close> of the
  copy \<open>c\<close> holds what a visit of word \<open>j\<close> of the original \<open>x\<close> answers. \<open>filled\<close>: this holds
  for every subvalue of \<open>b\<close>, those over which the loop of its kind runs. \<open>kept_below\<close>:
  the words of \<open>c\<close> below \<open>i\<close> are the same in both heaps.
\<close>

definition mut_marks :: "lib \<Rightarrow> heap \<Rightarrow> heap \<Rightarrow> bool" where
  "mut_marks L h0 h = (\<forall>w c. marked_as h0 h w c \<longrightarrow> IS_MUTABLE_OBJ L h0 (Ref w) = Inr True)"

definition val_done :: "lib \<Rightarrow> heap \<Rightarrow> heap \<Rightarrow> Obj \<Rightarrow> bool" where
  "val_done L h0 h v =
     (v = Null \<or> (\<exists>w c. v = Ref w \<and> marked_as h0 h w c) \<or> IS_MUTABLE_OBJ L h0 v = Inr False)"

definition slot_copied :: "lib \<Rightarrow> heap \<Rightarrow> heap \<Rightarrow> bag \<Rightarrow> nat \<Rightarrow> nat \<Rightarrow> bool" where
  "slot_copied L h0 h x c j =
     (j < length (slots x) \<and>
      (case bags h c of None \<Rightarrow> False
       | Some y \<Rightarrow> j < length (slots y) \<and> slots y ! j = fwd h (slots x ! j)) \<and>
      val_done L h0 h (slots x ! j))"

definition filled :: "lib \<Rightarrow> heap \<Rightarrow> heap \<Rightarrow> nat \<Rightarrow> nat \<Rightarrow> bool" where
  "filled L h0 h b c =
     (case bags h0 b of None \<Rightarrow> False
      | Some x \<Rightarrow>
          (tnum x = T_POSOBJ \<longrightarrow>
             (\<forall>i. 1 \<le> i \<and> i < size x div 8 \<longrightarrow> slot_copied L h0 h x c i)) \<and>
          (tnum x = T_COMOBJ \<longrightarrow>
             (\<forall>i len. 1 < length (slots x) \<and> slots x ! 1 = Word len \<and> 1 \<le> i \<and> i \<le> len \<longrightarrow>
                slot_copied L h0 h x c (2 * i + 1))))"

definition kept_below :: "heap \<Rightarrow> heap \<Rightarrow> nat \<Rightarrow> nat \<Rightarrow> bool" where
  "kept_below h h' c i =
     (case bags h c of None \<Rightarrow> False
      | Some y \<Rightarrow>
        (case bags h' c of None \<Rightarrow> False
         | Some y' \<Rightarrow> length (slots y') = length (slots y) \<and>
             (\<forall>j. j < i \<longrightarrow> slots y' ! j = slots y ! j)))"

text \<open>
  What is shown by a second induction on the fuel for \<open>COPY_OBJ\<close> and its two loops.
\<close>

definition vcopy_ok :: "lib \<Rightarrow> heap \<Rightarrow> nat \<Rightarrow> bool" where
  "vcopy_ok L h0 n =
     (\<forall>h obj mut h' r. copy_inv h0 h \<longrightarrow> closed_val (nextbag h0) obj \<longrightarrow> mut_marks L h0 h \<longrightarrow>
        COPY_OBJ L n h obj mut = Some (Inr (h', r)) \<longrightarrow>
        mut_marks L h0 h' \<and> r = fwd h' obj \<and> val_done L h0 h' obj \<and>
        (\<forall>w c. marked_as h0 h' w c \<and> nextbag h \<le> c \<longrightarrow> filled L h0 h' w c))"

definition vpos_ok :: "lib \<Rightarrow> heap \<Rightarrow> nat \<Rightarrow> bool" where
  "vpos_ok L h0 n =
     (\<forall>h b cb c0 mut i h' x y. copy_inv h0 h \<longrightarrow> marked_as h0 h b cb \<longrightarrow>
        bags h0 b = Some x \<longrightarrow> tnum x = T_POSOBJ \<longrightarrow> nextbag h0 \<le> c0 \<longrightarrow> c0 < nextbag h \<longrightarrow>
        (\<forall>b' c'. marked_as h0 h b' c' \<longrightarrow> Suc c' \<noteq> c0) \<longrightarrow> 1 \<le> i \<longrightarrow> mut_marks L h0 h \<longrightarrow>
        bags h c0 = Some y \<longrightarrow> size x div 8 \<le> length (slots y) \<longrightarrow>
        (\<forall>j. i \<le> j \<and> j < length (slots y) \<longrightarrow> slots y ! j = Null) \<longrightarrow>
        CopyObjPosObj_subvalues L n h b c0 mut i = Some (Inr h') \<longrightarrow>
        mut_marks L h0 h' \<and> kept_below h h' c0 i \<and>
        (\<forall>j. i \<le> j \<and> j < size x div 8 \<longrightarrow> slot_copied L h0 h' x c0 j) \<and>
        (\<forall>w c. marked_as h0 h' w c \<and> nextbag h \<le> c \<longrightarrow> filled L h0 h' w c))"

definition vcom_ok :: "lib \<Rightarrow> heap \<Rightarrow> nat \<Rightarrow> bool" where
  "vcom_ok L h0 n =
     (\<forall>h b cb c0 mut i h' x. copy_inv h0 h \<longrightarrow> marked_as h0 h b cb \<longrightarrow>
        bags h0 b = Some x \<longrightarrow> tnum x = T_COMOBJ \<longrightarrow> nextbag h0 \<le> c0 \<longrightarrow> c0 < nextbag h \<longrightarrow>
        (\<forall>b' c'. marked_as h0 h b' c' \<longrightarrow> Suc c' \<noteq> c0) \<longrightarrow> 1 \<le> i \<longrightarrow> mut_marks L h0 h \<longrightarrow>
        bags h c0 \<noteq> None \<longrightarrow>
        CopyObjComObj_subvalues L n h b c0 mut i = Some (Inr h') \<longrightarrow>
        mut_marks L h0 h' \<and> kept_below h h' c0 (2 * i) \<and>
        (\<forall>j len. 1 < length (slots x) \<and> slots x ! 1 = Word len \<and> i \<le> j \<and> j \<le> len \<longrightarrow>
           slot_copied L h0 h' x c0 (2 * j + 1)) \<and>
        (\<forall>w c. marked_as h0 h' w c \<and> nextbag h \<le> c \<longrightarrow> filled L h0 h' w c))"

text \<open>
  The result of \<open>CopyObj\<close> as the image of the original graph under a map \<open>\<phi>\<close> of objects.
  \<open>slot_image\<close>: word \<open>j\<close> of the bag \<open>c\<close> of the heap \<open>h'\<close> after the call is the image of word
  \<open>j\<close> of the original \<open>x\<close>, and this image is a bag allocated by the call when that word
  held a mutable object of the heap \<open>h\<close> before the call. \<open>copied_graph\<close>: this holds for every
  subvalue of every bag whose image is a bag allocated by the call.
\<close>

definition slot_image ::
  "lib \<Rightarrow> heap \<Rightarrow> heap \<Rightarrow> (Obj \<Rightarrow> Obj) \<Rightarrow> bag \<Rightarrow> nat \<Rightarrow> nat \<Rightarrow> bool" where
  "slot_image L h h' \<phi> x c j =
     (j < length (slots x) \<and>
      (case bags h' c of None \<Rightarrow> False
       | Some y \<Rightarrow> j < length (slots y) \<and> slots y ! j = \<phi> (slots x ! j)) \<and>
      (IS_MUTABLE_OBJ L h (slots x ! j) = Inr True \<longrightarrow>
         (\<exists>c'. \<phi> (slots x ! j) = Ref c' \<and> nextbag h \<le> c')))"

definition copied_graph :: "lib \<Rightarrow> heap \<Rightarrow> heap \<Rightarrow> (Obj \<Rightarrow> Obj) \<Rightarrow> bool" where
  "copied_graph L h h' \<phi> =
     (\<forall>w c x. bags h w = Some x \<and> \<phi> (Ref w) = Ref c \<and> nextbag h \<le> c \<longrightarrow>
        (tnum x = T_POSOBJ \<longrightarrow>
           (\<forall>i. 1 \<le> i \<and> i < size x div 8 \<longrightarrow> slot_image L h h' \<phi> x c i)) \<and>
        (tnum x = T_COMOBJ \<longrightarrow>
           (\<forall>i len. 1 < length (slots x) \<and> slots x ! 1 = Word len \<and> 1 \<le> i \<and> i \<le> len \<longrightarrow>
              slot_image L h h' \<phi> x c (2 * i + 1))))"

section \<open>Identity exchange: what is proved\<close>

lemma exchange_exchanged: "exchanged s (exchange s a b) a b"
  by (simp add: exchanged_def exchange_def Let_def)

lemma switch_refused_owned: "switch_refused tls s (DS_BAG s b) = (\<not> owned_by tls s b)"
  by (simp add: switch_refused_def owned_by_def split: option.splits)

lemma force_switch_refused_owned:
  "force_switch_refused tls s (DS_BAG s b) = (\<not> (in_public_region s b \<or> owned_by tls s b))"
  by (simp add: force_switch_refused_def owned_by_def in_public_region_def split: option.splits)

text \<open>
  C4, as stated, fails: the region of bag 0 is owned by the calling thread 1, the region of
  bag 1 by thread 2, and \<open>SWITCH_OBJ\<close> refuses the exchange and leaves the master pointers as
  they were.
\<close>

theorem SWITCH_OBJ_one_owned_refused:
  "owned_by 1 mp0 0 \<and>
   FuncSWITCH_OBJ 1 mp0 (Ref 0) (Ref 1) =
     (mp0, Some (ErrorQuit ''SWITCH_OBJ: Cannot write to second object's region.''))"
  by (simp add: owned_by_def switch_refused_def mp0_def)

text \<open>
  C4, amended: for two bag references, \<open>SWITCH_OBJ\<close> exchanges body pointer and region
  pointer exactly when both regions are owned by the calling thread; when the region of
  either is not, it raises the region ownership error and changes nothing.
\<close>

theorem SWITCH_OBJ_both_owned:
  "(owned_by tls s a \<and> owned_by tls s b \<longrightarrow>
      (\<exists>s'. FuncSWITCH_OBJ tls s (Ref a) (Ref b) = (s', None) \<and> exchanged s s' a b)) \<and>
   (\<not> (owned_by tls s a \<and> owned_by tls s b) \<longrightarrow>
      (\<exists>msg. FuncSWITCH_OBJ tls s (Ref a) (Ref b) = (s, Some (ErrorQuit msg))))"
  by (simp add: switch_refused_owned exchange_exchanged)

theorem SWITCH_OBJ_both_owned_witness:
  "owned_by 1 mp0 0 \<and> owned_by 1 mp0 3 \<and>
   (\<exists>s'. FuncSWITCH_OBJ 1 mp0 (Ref 0) (Ref 3) = (s', None) \<and> exchanged mp0 s' 0 3) \<and>
   \<not> (owned_by 1 mp0 0 \<and> owned_by 1 mp0 2) \<and>
   (\<exists>msg. FuncSWITCH_OBJ 1 mp0 (Ref 0) (Ref 2) = (mp0, Some (ErrorQuit msg)))"
proof -
  have o0: "owned_by 1 mp0 0" and o3: "owned_by 1 mp0 3" and o2: "\<not> owned_by 1 mp0 2"
    by (simp_all add: owned_by_def mp0_def)
  from SWITCH_OBJ_both_owned [of 1 mp0 0 3] o0 o3
  have "\<exists>s'. FuncSWITCH_OBJ 1 mp0 (Ref 0) (Ref 3) = (s', None) \<and> exchanged mp0 s' 0 3"
    by blast
  moreover from SWITCH_OBJ_both_owned [of 1 mp0 0 2] o2
  have "\<exists>msg. FuncSWITCH_OBJ 1 mp0 (Ref 0) (Ref 2) = (mp0, Some (ErrorQuit msg))"
    by blast
  ultimately show ?thesis using o0 o3 o2 by blast
qed

text \<open>
  C5, as stated, fails: the region of bag 1 is owned by thread 2, not by the calling
  thread 1, and \<open>FORCE_SWITCH_OBJ\<close> raises the region ownership error.
\<close>

theorem FORCE_SWITCH_OBJ_foreign_refused:
  "FuncFORCE_SWITCH_OBJ 1 mp0 (Ref 0) (Ref 1) =
     (mp0, Some (ErrorQuit ''FORCE_SWITCH_OBJ: Cannot write to second object's region.''))"
  by (simp add: force_switch_refused_def mp0_def)

text \<open>
  C5, amended: for two bag references, \<open>FORCE_SWITCH_OBJ\<close> performs the exchange exactly
  when each of the two bags lies in the public region or in a region owned by the calling
  thread; a bag in a region owned by another thread (or by none) makes it raise the region
  ownership error and change nothing.
\<close>

theorem FORCE_SWITCH_OBJ_public_or_owned:
  "((in_public_region s a \<or> owned_by tls s a) \<and> (in_public_region s b \<or> owned_by tls s b) \<longrightarrow>
      (\<exists>s'. FuncFORCE_SWITCH_OBJ tls s (Ref a) (Ref b) = (s', None) \<and> exchanged s s' a b)) \<and>
   (\<not> ((in_public_region s a \<or> owned_by tls s a) \<and> (in_public_region s b \<or> owned_by tls s b)) \<longrightarrow>
      (\<exists>msg. FuncFORCE_SWITCH_OBJ tls s (Ref a) (Ref b) = (s, Some (ErrorQuit msg))))"
  by (simp add: force_switch_refused_owned exchange_exchanged)

theorem FORCE_SWITCH_OBJ_public_or_owned_witness:
  "(in_public_region mp0 2 \<or> owned_by 1 mp0 2) \<and> (in_public_region mp0 0 \<or> owned_by 1 mp0 0) \<and>
   (\<exists>s'. FuncFORCE_SWITCH_OBJ 1 mp0 (Ref 2) (Ref 0) = (s', None) \<and> exchanged mp0 s' 2 0) \<and>
   \<not> (in_public_region mp0 1 \<or> owned_by 1 mp0 1) \<and>
   (\<exists>msg. FuncFORCE_SWITCH_OBJ 1 mp0 (Ref 1) (Ref 0) = (mp0, Some (ErrorQuit msg)))"
proof -
  have p2: "in_public_region mp0 2" and o0: "owned_by 1 mp0 0"
    and n1: "\<not> (in_public_region mp0 1 \<or> owned_by 1 mp0 1)"
    by (simp_all add: owned_by_def in_public_region_def mp0_def)
  from FORCE_SWITCH_OBJ_public_or_owned [of mp0 2 1 0] p2 o0
  have "\<exists>s'. FuncFORCE_SWITCH_OBJ 1 mp0 (Ref 2) (Ref 0) = (s', None) \<and> exchanged mp0 s' 2 0"
    by blast
  moreover from FORCE_SWITCH_OBJ_public_or_owned [of mp0 1 1 0] n1
  have "\<exists>msg. FuncFORCE_SWITCH_OBJ 1 mp0 (Ref 1) (Ref 0) = (mp0, Some (ErrorQuit msg))"
    by blast
  ultimately show ?thesis using p2 o0 n1 by blast
qed

section \<open>Copying immutable objects, cloning, setting types: what is proved\<close>


lemma TNUM_OBJ_copiedObjs [simp]: "TNUM_OBJ (h\<lparr>copiedObjs := c\<rparr>) obj = TNUM_OBJ h obj"
  by (simp add: TNUM_OBJ_def split: Obj.splits)

lemma get_slot_copiedObjs [simp]: "get_slot (h\<lparr>copiedObjs := c\<rparr>) b i = get_slot h b i"
  by (simp add: get_slot_def)

lemma TYPE_OBJ_copiedObjs [simp]: "TYPE_OBJ (h\<lparr>copiedObjs := c\<rparr>) obj = TYPE_OBJ h obj"
  by (simp add: TYPE_OBJ_def cong: if_cong Obj.case_cong)

lemma IS_MUTABLE_OBJ_copiedObjs [simp]:
  "IS_MUTABLE_OBJ L (h\<lparr>copiedObjs := c\<rparr>) obj = IS_MUTABLE_OBJ L h obj"
  by (simp add: IS_MUTABLE_OBJ_def cong: if_cong)

lemma immutable_tag:
  assumes "IS_MUTABLE_OBJ L h x = Inr False"
  obtains t where "TNUM_OBJ h x = Inr t"
    and "(FIRST_CONSTANT_TNUM \<le> t \<and> t \<le> LAST_CONSTANT_TNUM) \<or> t = T_COMOBJ \<or> t = T_POSOBJ \<or> t = T_DATOBJ"
  using assms
  by (auto simp: IS_MUTABLE_OBJ_def bindE_def TYPE_OBJ_def split: sum.splits if_splits)

lemma COPY_OBJ_immutable:
  assumes "IS_MUTABLE_OBJ L h x = Inr False"
  shows "COPY_OBJ L (Suc n) h x mut = Some (Inr (h, x))"
proof -
  from assms obtain t where t: "TNUM_OBJ h x = Inr t"
    and k: "(FIRST_CONSTANT_TNUM \<le> t \<and> t \<le> LAST_CONSTANT_TNUM) \<or> t = T_COMOBJ \<or> t = T_POSOBJ \<or> t = T_DATOBJ"
    by (rule immutable_tag)
  have b: "begin_copy L h x mut com = Inr Unchanged" for com
    using assms by (simp add: begin_copy_def bindE_def)
  from k show ?thesis
    using t b by (auto simp: CopyObjFuncs_def CopyObjDatObj_def bindE_def tnum_defs)
qed

lemma CLEAN_OBJ_immutable:
  assumes "IS_MUTABLE_OBJ L h x = Inr False"
  shows "CLEAN_OBJ (Suc n) h x = Some (Inr h)"
proof -
  from assms obtain t where t: "TNUM_OBJ h x = Inr t"
    and k: "(FIRST_CONSTANT_TNUM \<le> t \<and> t \<le> LAST_CONSTANT_TNUM) \<or> t = T_COMOBJ \<or> t = T_POSOBJ \<or> t = T_DATOBJ"
    by (rule immutable_tag)
  from k show ?thesis
    using t by (auto simp: CleanObjFuncs_def tnum_defs)
qed

text \<open>
  C3: for an object \<open>x\<close> that \<open>IS_MUTABLE_OBJ\<close> finds immutable, and for both values of
  \<open>mut\<close>, \<open>CopyObj\<close> returns the handle \<open>x\<close> itself, and the heap it leaves differs from the
  one it was given at most in the field \<open>copiedObjs\<close>, which it resets: no bag is changed
  and none is allocated.
\<close>

theorem CopyObj_immutable:
  "IS_MUTABLE_OBJ L h x = Inr False \<Longrightarrow>
   CopyObj L (Suc n) h x mut = Some (Inr (h\<lparr>copiedObjs := Null\<rparr>, x))"
  by (simp add: CopyObj_def COPY_OBJ_immutable CLEAN_OBJ_immutable del: COPY_OBJ.simps CLEAN_OBJ.simps)

text \<open>
  C3 at the immutable positional object 4 of \<open>heap1\<close>, for both values of \<open>mut\<close>, and at
  a small integer.
\<close>

theorem CopyObj_immutable_witness:
  "IS_MUTABLE_OBJ lib0 heap1 (Ref 4) = Inr False \<and>
   CopyObj lib0 1 heap1 (Ref 4) True = Some (Inr (heap1\<lparr>copiedObjs := Null\<rparr>, Ref 4)) \<and>
   CopyObj lib0 1 heap1 (Ref 4) False = Some (Inr (heap1\<lparr>copiedObjs := Null\<rparr>, Ref 4)) \<and>
   IS_MUTABLE_OBJ lib0 heap1 (IntObj 5) = Inr False \<and>
   CopyObj lib0 1 heap1 (IntObj 5) True = Some (Inr (heap1\<lparr>copiedObjs := Null\<rparr>, IntObj 5))"
proof -
  have a: "IS_MUTABLE_OBJ lib0 heap1 (Ref 4) = Inr False"
    by (simp add: IS_MUTABLE_OBJ_def TYPE_OBJ_def TNUM_OBJ_def get_slot_def bindE_def
        heap1_def heap0_def lib0_def tnum_defs)
  have b: "IS_MUTABLE_OBJ lib0 heap1 (IntObj 5) = Inr False"
    by (simp add: IS_MUTABLE_OBJ_def TNUM_OBJ_def bindE_def tnum_defs)
  show ?thesis
    using a b CopyObj_immutable [OF a, of 0 True] CopyObj_immutable [OF a, of 0 False]
      CopyObj_immutable [OF b, of 0 True]
    by simp
qed

text \<open>
  C10: for an object whose tag is none of \<open>T_PREC\<close>, \<open>T_COMOBJ\<close>, \<open>T_AREC\<close>, \<open>T_ACOMOBJ\<close>,
  \<open>SET_TYPE_COMOBJ\<close> raises nothing and returns the object, and the heap (tags, descriptors
  and contents of all bags) is the one it was given.
\<close>

theorem SET_TYPE_COMOBJ_other_tags:
  "TNUM_OBJ h obj = Inr t \<Longrightarrow> t \<noteq> T_PREC \<Longrightarrow> t \<noteq> T_COMOBJ \<Longrightarrow> t \<noteq> T_AREC \<Longrightarrow>
   t \<noteq> T_ACOMOBJ \<Longrightarrow> SET_TYPE_COMOBJ_Handler ext h obj kind = Inr (h, obj)"
  by (simp add: SET_TYPE_COMOBJ_Handler_def bindE_def)

text \<open>
  C10 at the positional object 0 of \<open>heap0\<close>.
\<close>

theorem SET_TYPE_COMOBJ_other_tags_witness:
  "TNUM_OBJ heap0 (Ref 0) = Inr T_POSOBJ \<and> T_POSOBJ \<noteq> T_PREC \<and> T_POSOBJ \<noteq> T_COMOBJ \<and>
   T_POSOBJ \<noteq> T_AREC \<and> T_POSOBJ \<noteq> T_ACOMOBJ \<and>
   SET_TYPE_COMOBJ_Handler (\<lambda>h obj kind. Inl Fault) heap0 (Ref 0) (Ref 3) = Inr (heap0, Ref 0)"
proof -
  have a: "TNUM_OBJ heap0 (Ref 0) = Inr T_POSOBJ"
    by (simp add: TNUM_OBJ_def heap0_def)
  have b: "T_POSOBJ \<noteq> T_PREC" "T_POSOBJ \<noteq> T_COMOBJ" "T_POSOBJ \<noteq> T_AREC" "T_POSOBJ \<noteq> T_ACOMOBJ"
    by (simp_all add: tnum_defs)
  show ?thesis
    using a b SET_TYPE_COMOBJ_other_tags [OF a b, of "\<lambda>h obj kind. Inl Fault" "Ref 3"] by simp
qed




section \<open>Printing: what is proved\<close>


lemma scan_thiss_True:
  "scan_thiss obj xs k = Inr True \<Longrightarrow> obj \<in> set xs"
  by (induction obj xs k rule: scan_thiss.induct) (auto split: if_splits)

lemma print_path_takeWhile:
  "this \<in> set xs \<Longrightarrow> length xs = length ks \<Longrightarrow>
   print_path this xs ks =
     Inr (map (\<lambda>(x, k). PrPath x k) (takeWhile (\<lambda>(x, k). x \<noteq> this) (zip xs ks)))"
proof (induction this xs ks rule: print_path.induct)
  case (1 this x xs k ks)
  then show ?case by auto
qed simp_all

lemma IS_MARKED_True:
  "IS_MARKED h s obj = Inr True \<Longrightarrow> obj \<in> set (PrintObjThiss s)"
  by (auto simp: IS_MARKED_def bindE_def split: sum.splits if_splits dest: scan_thiss_True)

text \<open>
  C7, amended: when the object that \<open>PrintObj\<close> has made current is marked (it lies in the
  markable tag range and is among the saved ancestors), the print body is not called: the
  call prints \<open>~\<close> and then the selectors of the saved ancestors from the outermost one
  down to, and not including, the first one that is the object itself. That is the path
  from the root of the print to the object referred back to.
\<close>

theorem PrintObj_back_reference:
  assumes "\<not> ((case obj of Ref _ \<Rightarrow> True | _ \<Rightarrow> False) \<and> \<not> CheckRead obj)"
    and "PrintObj_enter intr s obj = Inr (s1, fromview, lastPV)"
    and "IS_MARKED h s1 (PrintObjThis s1) = Inr True"
    and "length (PrintObjThiss s1) = length (PrintObjIndices s1)"
  shows "PrintObj h intr CheckRead body s obj =
     PrintObj_leave fromview lastPV
       (s1\<lparr>printed := printed s1 @ Pr ''~'' #
            map (\<lambda>(x, k). PrPath x k)
              (takeWhile (\<lambda>(x, k). x \<noteq> PrintObjThis s1)
                 (zip (PrintObjThiss s1) (PrintObjIndices s1)))\<rparr>)"
proof -
  have "PrintObjThis s1 \<in> set (PrintObjThiss s1)"
    using assms(3) by (rule IS_MARKED_True)
  then have "print_path (PrintObjThis s1) (PrintObjThiss s1) (PrintObjIndices s1) =
     Inr (map (\<lambda>(x, k). PrPath x k) (takeWhile (\<lambda>(x, k). x \<noteq> PrintObjThis s1)
        (zip (PrintObjThiss s1) (PrintObjIndices s1))))"
    using assms(4) by (rule print_path_takeWhile)
  then have "PrintObj_dispatch h body s1 = Inr (s1\<lparr>printed := printed s1 @ Pr ''~'' #
            map (\<lambda>(x, k). PrPath x k)
              (takeWhile (\<lambda>(x, k). x \<noteq> PrintObjThis s1)
                 (zip (PrintObjThiss s1) (PrintObjIndices s1)))\<rparr>)"
    using assms(3) by (simp add: PrintObj_dispatch_def bindE_def)
  then show ?thesis
    using assms(1,2) by (auto simp: PrintObj_def bindE_def Let_def)
qed

lemma replicate_numeral_upd0:
  "(replicate (numeral k) x)[0 := y] = y # replicate (pred_numeral k) x"
  by (simp add: numeral_eq_Suc)

lemma replicate_numeral_upd_Suc:
  "(replicate (numeral k) x)[Suc n := y] = x # (replicate (pred_numeral k) x)[n := y]"
  by (simp add: numeral_eq_Suc)

text \<open>
  C7, as stated, fails at \<open>pstate0\<close>: the nearest matching ancestor is the list 11, and
  the chain from it down to the current position is its selector for index 3; the code
  prints the selector of the list 10 for index 2.
\<close>

theorem PrintObj_back_reference_from_nearest:
  "PrintObj_printed heap2 False CheckRead_all body_skip pstate0 (Ref 11) =
     Inr [Pr ''~'', PrPath (Ref 10) 2] \<and>
   spec_printed False pstate0 (Ref 11) = Inr [Pr ''~'', PrPath (Ref 11) 3]"
  by (simp add: PrintObj_printed_def PrintObj_def PrintObj_enter_def pstate0_def
      CheckRead_all_def bindE_def PrintObj_dispatch_def PrintObj_leave_def Let_def
      IS_MARKED_def IS_MARKABLE_def TNUM_OBJ_def heap2_def tnum_defs numeral_2_eq_2
      spec_printed_def spec_back_reference_def replicate_numeral_upd0 replicate_numeral_upd_Suc
      MAXPRINTDEPTH_def)


text \<open>
  C7, amended, at \<open>pstate0\<close>: the list 11, second entry of the list 10, is reached again
  as its own third entry.
\<close>

theorem PrintObj_back_reference_witness:
  "\<not> ((case Ref 11 of Ref _ \<Rightarrow> True | _ \<Rightarrow> False) \<and> \<not> CheckRead_all (Ref 11)) \<and>
   PrintObj_enter False pstate0 (Ref 11) = Inr (pstate1, False, 1) \<and>
   IS_MARKED heap2 pstate1 (PrintObjThis pstate1) = Inr True \<and>
   length (PrintObjThiss pstate1) = length (PrintObjIndices pstate1) \<and>
   PrintObj heap2 False CheckRead_all body_skip pstate0 (Ref 11) =
     PrintObj_leave False 1 (pstate1\<lparr>printed := [Pr ''~'', PrPath (Ref 10) 2]\<rparr>)"
proof -
  have a: "\<not> ((case Ref 11 of Ref _ \<Rightarrow> True | _ \<Rightarrow> False) \<and> \<not> CheckRead_all (Ref 11))"
    by (simp add: CheckRead_all_def)
  have b: "PrintObj_enter False pstate0 (Ref 11) = Inr (pstate1, False, 1)"
    by (simp add: PrintObj_enter_def pstate0_def pstate1_def bindE_def Let_def)
  have c: "IS_MARKED heap2 pstate1 (PrintObjThis pstate1) = Inr True"
    by (simp add: IS_MARKED_def IS_MARKABLE_def TNUM_OBJ_def heap2_def bindE_def tnum_defs
        pstate1_def numeral_2_eq_2 replicate_numeral_upd0 replicate_numeral_upd_Suc)
  have d: "length (PrintObjThiss pstate1) = length (PrintObjIndices pstate1)"
    by (simp add: pstate1_def)
  have e: "takeWhile (\<lambda>(x, k). x \<noteq> PrintObjThis pstate1)
      (zip (PrintObjThiss pstate1) (PrintObjIndices pstate1)) = [(Ref 10, 2)]"
    by (simp add: pstate1_def replicate_numeral_upd0 replicate_numeral_upd_Suc)
  have f: "printed pstate1 = []"
    by (simp add: pstate1_def)
  show ?thesis
    using a b c d
      PrintObj_back_reference [of "Ref 11" CheckRead_all False pstate0 pstate1 False 1 heap2 body_skip]
    by (simp add: e f)
qed

text \<open>
  C8: when the object that \<open>PrintObj\<close> has made current is not marked and the depth has
  reached \<open>MAXPRINTDEPTH\<close> (so also when it exceeds it), the print body is not called and the
  notice is printed. The print body is only ever called at a depth below \<open>MAXPRINTDEPTH\<close>
  (two bodies that agree there give the same \<open>PrintObj\<close>), and a call at a depth below
  \<open>MAXPRINTDEPTH\<close> saves the superobject inside the two arrays and leaves the depth at most
  \<open>MAXPRINTDEPTH\<close>.
\<close>

theorem PrintObj_depth_exceeded:
  "(\<not> ((case obj of Ref _ \<Rightarrow> True | _ \<Rightarrow> False) \<and> \<not> CheckRead obj) \<and>
    PrintObj_enter intr s obj = Inr (s1, fromview, lastPV) \<and>
    IS_MARKED h s1 (PrintObjThis s1) = Inr False \<and>
    int MAXPRINTDEPTH \<le> PrintObjDepth s1 \<longrightarrow>
      PrintObj h intr CheckRead body s obj =
        PrintObj_leave fromview lastPV (s1\<lparr>printed := printed s1 @ [Pr stopped_notice]\<rparr>)) \<and>
   ((\<forall>x t. PrintObjDepth t < int MAXPRINTDEPTH \<longrightarrow> body x t = body' x t) \<longrightarrow>
      PrintObj h intr CheckRead body s obj = PrintObj h intr CheckRead body' s obj) \<and>
   (PrintObjDepth s < int MAXPRINTDEPTH \<and> length (PrintObjThiss s) = MAXPRINTDEPTH \<and>
    length (PrintObjIndices s) = MAXPRINTDEPTH \<longrightarrow>
      (\<exists>s1 fromview lastPV. PrintObj_enter intr s obj = Inr (s1, fromview, lastPV) \<and>
         PrintObjDepth s1 \<le> int MAXPRINTDEPTH \<and>
         length (PrintObjThiss s1) = MAXPRINTDEPTH \<and>
         length (PrintObjIndices s1) = MAXPRINTDEPTH))"
proof (intro conjI impI)
  assume a: "\<not> ((case obj of Ref _ \<Rightarrow> True | _ \<Rightarrow> False) \<and> \<not> CheckRead obj) \<and>
    PrintObj_enter intr s obj = Inr (s1, fromview, lastPV) \<and>
    IS_MARKED h s1 (PrintObjThis s1) = Inr False \<and>
    int MAXPRINTDEPTH \<le> PrintObjDepth s1"
  then have "PrintObj_dispatch h body s1 = Inr (s1\<lparr>printed := printed s1 @ [Pr stopped_notice]\<rparr>)"
    by (simp add: PrintObj_dispatch_def bindE_def)
  with a show "PrintObj h intr CheckRead body s obj =
        PrintObj_leave fromview lastPV (s1\<lparr>printed := printed s1 @ [Pr stopped_notice]\<rparr>)"
    by (auto simp: PrintObj_def bindE_def Let_def)
next
  assume a: "\<forall>x t. PrintObjDepth t < int MAXPRINTDEPTH \<longrightarrow> body x t = body' x t"
  have "PrintObj_dispatch h body t = PrintObj_dispatch h body' t" for t
    using a by (simp add: PrintObj_dispatch_def bindE_def split: sum.splits)
  then have eq: "PrintObj_dispatch h body = PrintObj_dispatch h body'"
    by (rule ext)
  show "PrintObj h intr CheckRead body s obj = PrintObj h intr CheckRead body' s obj"
    unfolding PrintObj_def eq by (rule refl)
next
  assume a: "PrintObjDepth s < int MAXPRINTDEPTH \<and> length (PrintObjThiss s) = MAXPRINTDEPTH \<and>
    length (PrintObjIndices s) = MAXPRINTDEPTH"
  then show "\<exists>s1 fromview lastPV. PrintObj_enter intr s obj = Inr (s1, fromview, lastPV) \<and>
         PrintObjDepth s1 \<le> int MAXPRINTDEPTH \<and>
         length (PrintObjThiss s1) = MAXPRINTDEPTH \<and>
         length (PrintObjIndices s1) = MAXPRINTDEPTH"
    by (auto simp: PrintObj_enter_def bindE_def Let_def)
qed

text \<open>
  C8 at \<open>pstate2\<close>, a printer at depth 1023 that is asked to print a small integer.
\<close>

theorem PrintObj_depth_exceeded_witness:
  "\<not> ((case IntObj 5 of Ref _ \<Rightarrow> True | _ \<Rightarrow> False) \<and> \<not> CheckRead_all (IntObj 5)) \<and>
   PrintObj_enter False pstate2 (IntObj 5) = Inr (pstate3, False, 1) \<and>
   IS_MARKED heap2 pstate3 (PrintObjThis pstate3) = Inr False \<and>
   int MAXPRINTDEPTH \<le> PrintObjDepth pstate3 \<and>
   PrintObj heap2 False CheckRead_all body_skip pstate2 (IntObj 5) =
     PrintObj_leave False 1 (pstate3\<lparr>printed := printed pstate3 @ [Pr stopped_notice]\<rparr>) \<and>
   PrintObjDepth pstate2 < int MAXPRINTDEPTH \<and> length (PrintObjThiss pstate2) = MAXPRINTDEPTH \<and>
   length (PrintObjIndices pstate2) = MAXPRINTDEPTH \<and>
   PrintObjDepth pstate3 \<le> int MAXPRINTDEPTH"
proof -
  have a: "\<not> ((case IntObj 5 of Ref _ \<Rightarrow> True | _ \<Rightarrow> False) \<and> \<not> CheckRead_all (IntObj 5))"
    by simp
  have b: "PrintObj_enter False pstate2 (IntObj 5) = Inr (pstate3, False, 1)"
    by (simp add: PrintObj_enter_def pstate2_def pstate3_def bindE_def Let_def)
  have c: "IS_MARKED heap2 pstate3 (PrintObjThis pstate3) = Inr False"
    by (simp add: IS_MARKED_def IS_MARKABLE_def TNUM_OBJ_def bindE_def tnum_defs pstate3_def)
  have d: "int MAXPRINTDEPTH \<le> PrintObjDepth pstate3"
    by (simp add: pstate3_def MAXPRINTDEPTH_def)
  have e: "PrintObjDepth pstate2 < int MAXPRINTDEPTH \<and> length (PrintObjThiss pstate2) = MAXPRINTDEPTH \<and>
    length (PrintObjIndices pstate2) = MAXPRINTDEPTH"
    by (simp add: pstate2_def MAXPRINTDEPTH_def)
  have f: "PrintObjDepth pstate3 \<le> int MAXPRINTDEPTH"
    by (simp add: pstate3_def MAXPRINTDEPTH_def)
  from PrintObj_depth_exceeded [of "IntObj 5" CheckRead_all False pstate2 pstate3 False 1 heap2
      body_skip body_skip] a b c d
  have "PrintObj heap2 False CheckRead_all body_skip pstate2 (IntObj 5) =
     PrintObj_leave False 1 (pstate3\<lparr>printed := printed pstate3 @ [Pr stopped_notice]\<rparr>)"
    by blast
  with a b c d e f show ?thesis by simp
qed

section \<open>Saving and loading: what is proved\<close>


lemma get_slot_Some:
  "bags h b = Some x \<Longrightarrow> i < length (slots x) \<Longrightarrow> get_slot h b i = Inr (slots x ! i)"
  by (simp add: get_slot_def)

lemma set_slot_Some:
  "bags h b = Some x \<Longrightarrow> i < length (slots x) \<Longrightarrow>
   set_slot h b i v = Inr (upd_bag h b (x\<lparr>slots := (slots x)[i := v]\<rparr>))"
  by (simp add: set_slot_def)

lemma bags_upd_bag [simp]: "bags (upd_bag h b x) = (bags h)(b \<mapsto> x)"
  by (simp add: upd_bag_def)

lemma upd_bag_upd_bag [simp]: "upd_bag (upd_bag h b x) b y = upd_bag h b y"
  by (simp add: upd_bag_def)

lemma upd_bag_same: "bags h b = Some x \<Longrightarrow> upd_bag h b x = h"
  by (simp add: upd_bag_def map_upd_triv)

lemma SavePosObj_slots_eq:
  "bags h b = Some x \<Longrightarrow> i + k \<le> length (slots x) \<Longrightarrow>
   SavePosObj_slots h b i k = Inr (map SubObj (take k (drop i (slots x))))"
proof (induction k arbitrary: i)
  case 0
  then show ?case by simp
next
  case (Suc k)
  then have i: "i < length (slots x)" by simp
  from Suc have "SavePosObj_slots h b (Suc i) k = Inr (map SubObj (take k (drop (Suc i) (slots x))))"
    by simp
  then show ?case
    using Suc.prems(1) i by (simp add: get_slot_Some Cons_nth_drop_Suc [symmetric])
qed

lemma LoadPosObj_slots_eq:
  "bags h d = Some y \<Longrightarrow> i + length vs \<le> length (slots y) \<Longrightarrow>
   LoadPosObj_slots h d i (length vs) (map SubObj vs @ rest) =
     Inr (upd_bag h d (y\<lparr>slots := take i (slots y) @ vs @ drop (i + length vs) (slots y)\<rparr>), rest)"
proof (induction vs arbitrary: i h y)
  case Nil
  then show ?case by (simp add: upd_bag_same)
next
  case (Cons v vs)
  then have i: "i < length (slots y)" by simp
  let ?y = "y\<lparr>slots := (slots y)[i := v]\<rparr>"
  have s: "set_slot h d i v = Inr (upd_bag h d ?y)"
    using Cons.prems(1) i by (rule set_slot_Some)
  have "LoadPosObj_slots (upd_bag h d ?y) d (Suc i) (length vs) (map SubObj vs @ rest) =
     Inr (upd_bag (upd_bag h d ?y) d (?y\<lparr>slots := take (Suc i) (slots ?y) @ vs @
        drop (Suc i + length vs) (slots ?y)\<rparr>), rest)"
    using Cons.prems by (intro Cons.IH) simp_all
  then show ?case
    using i by (simp add: LoadSubObj_def s take_Suc_conv_app_nth)
qed

lemma SaveDatObj_words_eq:
  "bags h b = Some x \<Longrightarrow> drop i (slots x) = map Word ws @ r \<Longrightarrow>
   SaveDatObj_words h b i (length ws) = Inr (map UIntW ws)"
proof (induction ws arbitrary: i)
  case Nil
  then show ?case by simp
next
  case (Cons w ws)
  from Cons.prems(2) have i: "i < length (slots x)"
    by (metis drop_eq_Nil2 append_Cons list.map(2) list.distinct(1) not_le)
  from Cons.prems(2) i have n: "slots x ! i = Word w" and d: "drop (Suc i) (slots x) = map Word ws @ r"
    by (simp_all add: Cons_nth_drop_Suc [symmetric])
  from Cons.IH [OF Cons.prems(1) d] show ?case
    using Cons.prems(1) i n by (simp add: get_slot_Some bindE_def UINT_def)
qed

lemma LoadDatObj_words_eq:
  "bags h d = Some y \<Longrightarrow> i + length ws \<le> length (slots y) \<Longrightarrow>
   LoadDatObj_words h d i (length ws) (map UIntW ws @ rest) =
     Inr (upd_bag h d (y\<lparr>slots := take i (slots y) @ map Word ws @ drop (i + length ws) (slots y)\<rparr>), rest)"
proof (induction ws arbitrary: i h y)
  case Nil
  then show ?case by (simp add: upd_bag_same)
next
  case (Cons w ws)
  then have i: "i < length (slots y)" by simp
  let ?y = "y\<lparr>slots := (slots y)[i := Word w]\<rparr>"
  have s: "set_slot h d i (Word w) = Inr (upd_bag h d ?y)"
    using Cons.prems(1) i by (rule set_slot_Some)
  have "LoadDatObj_words (upd_bag h d ?y) d (Suc i) (length ws) (map UIntW ws @ rest) =
     Inr (upd_bag (upd_bag h d ?y) d (?y\<lparr>slots := take (Suc i) (slots ?y) @ map Word ws @
        drop (Suc i + length ws) (slots ?y)\<rparr>), rest)"
    using Cons.prems by (intro Cons.IH) simp_all
  then show ?case
    using i by (simp add: LoadUInt_def s take_Suc_conv_app_nth)
qed


lemma length_fields_words [simp]: "length (fields_words fs) = 2 * length fs"
  by (induction fs rule: fields_words.induct) simp_all

lemma SaveComObj_fields_eq:
  "bags h b = Some x \<Longrightarrow> drop (2 * i) (slots x) = fields_words fs @ r \<Longrightarrow>
   SaveComObj_fields h b i (length fs) = Inr (fields_items fs)"
proof (induction fs arbitrary: i rule: fields_words.induct)
  case 1
  then show ?case by simp
next
  case (2 n v fs)
  from "2.prems"(2) have d: "drop (2 * i) (slots x) = Word n # v # fields_words fs @ r"
    by simp
  then have i: "2 * i < length (slots x)"
    by (metis drop_eq_Nil2 list.distinct(1) not_le)
  from d i have n: "slots x ! (2 * i) = Word n" and d1: "drop (Suc (2 * i)) (slots x) = v # fields_words fs @ r"
    by (simp_all add: Cons_nth_drop_Suc [symmetric])
  from d1 have i1: "Suc (2 * i) < length (slots x)"
    by (metis drop_eq_Nil2 list.distinct(1) not_le)
  from d1 i1 have v: "slots x ! Suc (2 * i) = v" and d2: "drop (2 * Suc i) (slots x) = fields_words fs @ r"
    by (simp_all add: Cons_nth_drop_Suc [symmetric])
  from "2.IH" [OF "2.prems"(1) d2] show ?case
    using "2.prems"(1) i i1 n v
    by (simp add: GET_RNAM_PREC_def GET_ELM_PREC_def get_slot_Some bindE_def UINT_def)
qed

lemma LoadComObj_fields_eq:
  "bags h d = Some y \<Longrightarrow> 2 * i + 2 * length fs \<le> length (slots y) \<Longrightarrow>
   LoadComObj_fields h d i (length fs) (fields_items fs @ rest) =
     Inr (upd_bag h d (y\<lparr>slots := take (2 * i) (slots y) @ fields_words fs @
        drop (2 * i + 2 * length fs) (slots y)\<rparr>), rest)"
proof (induction fs arbitrary: i h y rule: fields_words.induct)
  case 1
  then show ?case by (simp add: upd_bag_same)
next
  case (2 n v fs)
  then have i: "2 * i < length (slots y)" and i1: "Suc (2 * i) < length (slots y)" by simp_all
  let ?y1 = "y\<lparr>slots := (slots y)[2 * i := Word n]\<rparr>"
  let ?y2 = "y\<lparr>slots := (slots y)[2 * i := Word n, Suc (2 * i) := v]\<rparr>"
  have s1: "SET_RNAM_PREC h d i n = Inr (upd_bag h d ?y1)"
    unfolding SET_RNAM_PREC_def using "2.prems"(1) i by (rule set_slot_Some)
  have s2: "SET_ELM_PREC (upd_bag h d ?y1) d i v = Inr (upd_bag h d ?y2)"
    using i1 by (simp add: SET_ELM_PREC_def set_slot_def)
  have "LoadComObj_fields (upd_bag h d ?y2) d (Suc i) (length fs) (fields_items fs @ rest) =
     Inr (upd_bag (upd_bag h d ?y2) d (?y2\<lparr>slots := take (2 * Suc i) (slots ?y2) @ fields_words fs @
        drop (2 * Suc i + 2 * length fs) (slots ?y2)\<rparr>), rest)"
    using "2.prems" by (intro "2.IH") simp_all
  moreover have "take (2 * Suc i) (slots ?y2) = take (2 * i) (slots y) @ [Word n, v]"
    using i i1 by (simp add: take_Suc_conv_app_nth)
  ultimately show ?case
    by (simp add: LoadUInt_def LoadSubObj_def s1 s2)
qed

lemma wrap_pred: "0 < n \<Longrightarrow> n < 2 ^ 64 \<Longrightarrow> (n + 2 ^ 64 - 1) mod 2 ^ 64 = n - (1::nat)"
proof -
  assume a: "0 < n" "n < 2 ^ 64"
  then have "n + 2 ^ 64 - 1 = (n - 1) + 1 * 2 ^ 64" by simp
  then have "(n + 2 ^ 64 - 1) mod 2 ^ 64 = (n - 1) mod 2 ^ 64"
    by (metis mod_mult_self1)
  with a show ?thesis by simp
qed


lemma SIZE_OBJ_Some: "bags h b = Some x \<Longrightarrow> SIZE_OBJ h b = Inr (size x)"
  by (simp add: SIZE_OBJ_def)

lemma pos_roundtrip:
  assumes bx: "bags h b = Some x" and dy: "bags h' d = Some y"
    and ty: "tnum y = tnum x" and sy: "size y = size x"
    and ly: "length (slots y) = length (slots x)"
    and ne: "slots x \<noteq> []" and sz: "size x = 8 * length (slots x)" and lt: "size x < 2 ^ 64"
  shows "SavePosObj h (Ref b) = Inr (map SubObj (slots x))"
    and "LoadPosObj h' (Ref d) (map SubObj (slots x) @ rest) = Inr (upd_bag h' d x, rest)"
proof -
  from ne obtain v vs where x: "slots x = v # vs" by (cases "slots x") auto
  have k: "(size x div 8 + 2 ^ 64 - 1) mod 2 ^ 64 = length vs"
    using sz lt x by (simp add: wrap_pred)
  have "SavePosObj_slots h b 1 (length vs) = Inr (map SubObj (take (length vs) (drop 1 (slots x))))"
    using bx by (rule SavePosObj_slots_eq) (simp add: x)
  then show "SavePosObj h (Ref b) = Inr (map SubObj (slots x))"
    using bx by (simp add: SavePosObj_def get_slot_Some SIZE_OBJ_Some bindE_def k [simplified] x)
  let ?y = "y\<lparr>slots := (slots y)[0 := v]\<rparr>"
  have s: "set_slot h' d 0 v = Inr (upd_bag h' d ?y)"
    using dy by (rule set_slot_Some) (simp add: ly x)
  have "LoadPosObj_slots (upd_bag h' d ?y) d 1 (length vs) (map SubObj vs @ rest) =
    Inr (upd_bag (upd_bag h' d ?y) d (?y\<lparr>slots := take 1 (slots ?y) @ vs @
        drop (1 + length vs) (slots ?y)\<rparr>), rest)"
    by (rule LoadPosObj_slots_eq) (simp_all add: ly x)
  moreover have "take 1 (slots ?y) = [v]"
    using ly x by (cases "slots y") simp_all
  moreover have "y\<lparr>slots := v # vs\<rparr> = x"
    using ty sy x by simp
  ultimately show "LoadPosObj h' (Ref d) (map SubObj (slots x) @ rest) = Inr (upd_bag h' d x, rest)"
    using sy ly x by (simp add: LoadPosObj_def LoadSubObj_def s bindE_def SIZE_OBJ_def k [simplified])
qed


lemma dat_roundtrip:
  assumes bx: "bags h b = Some x" and dy: "bags h' d = Some y"
    and ty: "tnum y = tnum x" and sy: "size y = size x"
    and ly: "length (slots y) = length (slots x)"
    and x: "slots x = k # map Word ws" and lw: "length (slots x) = WORDS (size x)"
    and lt: "size x < 2 ^ 64"
  shows "SaveDatObj h (Ref b) = Inr (SubObj k # map UIntW ws)"
    and "LoadDatObj h' (Ref d) (SubObj k # map UIntW ws @ rest) = Inr (upd_bag h' d x, rest)"
proof -
  have w: "(size x + 8 - 1) div 8 = Suc (length ws)"
    using lw x by (simp add: WORDS_def)
  have "(Suc (length ws) + 2 ^ 64 - 1) mod 2 ^ 64 = Suc (length ws) - 1"
    using lt w by (intro wrap_pred) auto
  then have n: "((size x + 8 - 1) div 8 + 2 ^ 64 - 1) mod 2 ^ 64 = length ws"
    unfolding w by simp
  have "SaveDatObj_words h b 1 (length ws) = Inr (map UIntW ws)"
    using bx by (rule SaveDatObj_words_eq [where r = "[]"]) (simp add: x)
  then show "SaveDatObj h (Ref b) = Inr (SubObj k # map UIntW ws)"
    using bx by (simp add: SaveDatObj_def get_slot_Some SIZE_OBJ_Some bindE_def n [simplified] x)
  let ?y = "y\<lparr>slots := (slots y)[0 := k]\<rparr>"
  have s: "set_slot h' d 0 k = Inr (upd_bag h' d ?y)"
    using dy by (rule set_slot_Some) (simp add: ly x)
  have "LoadDatObj_words (upd_bag h' d ?y) d 1 (length ws) (map UIntW ws @ rest) =
    Inr (upd_bag (upd_bag h' d ?y) d (?y\<lparr>slots := take 1 (slots ?y) @ map Word ws @
        drop (1 + length ws) (slots ?y)\<rparr>), rest)"
    by (rule LoadDatObj_words_eq) (simp_all add: ly x)
  moreover have "take 1 (slots ?y) = [k]"
    using ly x by (cases "slots y") simp_all
  moreover have "y\<lparr>slots := k # map Word ws\<rparr> = x"
    using ty sy x by simp
  ultimately show "LoadDatObj h' (Ref d) (SubObj k # map UIntW ws @ rest) = Inr (upd_bag h' d x, rest)"
    using sy ly x by (simp add: LoadDatObj_def LoadSubObj_def s bindE_def SIZE_OBJ_def n [simplified])
qed

lemma com_roundtrip:
  assumes bx: "bags h b = Some x" and dy: "bags h' d = Some y"
    and ly: "length (slots y) = length (slots x)"
    and x: "slots x = k # Word (length fs) # fields_words fs @ extra"
  shows "SaveComObj h (Ref b) = Inr (SubObj k # UIntW (length fs) # fields_items fs)"
    and "LoadComObj h' (Ref d) (SubObj k # UIntW (length fs) # fields_items fs @ rest) =
      Inr (upd_bag h' d (y\<lparr>slots := k # Word (length fs) # fields_words fs @
             drop (2 * length fs + 2) (slots y)\<rparr>), rest)"
proof -
  have "SaveComObj_fields h b 1 (length fs) = Inr (fields_items fs)"
    using bx by (rule SaveComObj_fields_eq [where r = extra]) (simp add: x)
  then show "SaveComObj h (Ref b) = Inr (SubObj k # UIntW (length fs) # fields_items fs)"
    using bx by (simp add: SaveComObj_def LEN_PREC_def get_slot_Some bindE_def UINT_def x)
  let ?y1 = "y\<lparr>slots := (slots y)[0 := k]\<rparr>"
  let ?y2 = "y\<lparr>slots := (slots y)[0 := k, 1 := Word (length fs)]\<rparr>"
  have s1: "set_slot h' d 0 k = Inr (upd_bag h' d ?y1)"
    using dy by (rule set_slot_Some) (simp add: ly x)
  have s2: "SET_LEN_PREC (upd_bag h' d ?y1) d (length fs) = Inr (upd_bag h' d ?y2)"
    using ly x by (simp add: SET_LEN_PREC_def set_slot_def)
  have "LoadComObj_fields (upd_bag h' d ?y2) d 1 (length fs) (fields_items fs @ rest) =
    Inr (upd_bag (upd_bag h' d ?y2) d (?y2\<lparr>slots := take (2 * 1) (slots ?y2) @ fields_words fs @
        drop (2 * 1 + 2 * length fs) (slots ?y2)\<rparr>), rest)"
    by (rule LoadComObj_fields_eq) (simp_all add: ly x)
  moreover have "take (2 * 1) (slots ?y2) = [k, Word (length fs)]"
  proof -
    from ly x obtain a c zs where "slots y = a # c # zs"
      by (cases "slots y"; cases "tl (slots y)") auto
    then show ?thesis by simp
  qed
  ultimately show "LoadComObj h' (Ref d) (SubObj k # UIntW (length fs) # fields_items fs @ rest) =
      Inr (upd_bag h' d (y\<lparr>slots := k # Word (length fs) # fields_words fs @
             drop (2 * length fs + 2) (slots y)\<rparr>), rest)"
    by (simp add: LoadComObj_def LoadSubObj_def LoadUInt_def s1 s2 bindE_def add.commute)
qed


text \<open>
  C9: let \<open>x\<close> be the bag saved and \<open>y\<close> a cell of the same tag, size and number of words.
  For a component object with descriptor \<open>k\<close> and components \<open>fs\<close>, the stream is the
  descriptor, the number of components and then name and value of each component in turn,
  and loading it gives the cell the descriptor, the number and the components of \<open>x\<close>
  (the words behind the last component are not saved and stay as they are in the cell).
  For a positional object the stream is the descriptor and then every slot, for a data
  object the descriptor and then every word of the payload, and loading makes the cell
  equal to \<open>x\<close>. In each case the loader consumes exactly what the saver wrote.
\<close>

theorem save_load_roundtrip:
  "bags h b = Some x \<and> bags h' d = Some y \<and> tnum y = tnum x \<and> size y = size x \<and>
   length (slots y) = length (slots x) \<longrightarrow>
     (slots x = k # Word (length fs) # fields_words fs @ extra \<longrightarrow>
        SaveComObj h (Ref b) = Inr (SubObj k # UIntW (length fs) # fields_items fs) \<and>
        LoadComObj h' (Ref d) (SubObj k # UIntW (length fs) # fields_items fs @ rest) =
          Inr (upd_bag h' d (y\<lparr>slots := k # Word (length fs) # fields_words fs @
                 drop (2 * length fs + 2) (slots y)\<rparr>), rest)) \<and>
     (slots x \<noteq> [] \<and> size x = 8 * length (slots x) \<and> size x < 2 ^ 64 \<longrightarrow>
        SavePosObj h (Ref b) = Inr (map SubObj (slots x)) \<and>
        LoadPosObj h' (Ref d) (map SubObj (slots x) @ rest) = Inr (upd_bag h' d x, rest)) \<and>
     (slots x = k # map Word ws \<and> length (slots x) = WORDS (size x) \<and> size x < 2 ^ 64 \<longrightarrow>
        SaveDatObj h (Ref b) = Inr (SubObj k # map UIntW ws) \<and>
        LoadDatObj h' (Ref d) (SubObj k # map UIntW ws @ rest) = Inr (upd_bag h' d x, rest))"
proof (intro impI conjI)
  assume a: "bags h b = Some x \<and> bags h' d = Some y \<and> tnum y = tnum x \<and> size y = size x \<and>
   length (slots y) = length (slots x)"
  {
    assume c: "slots x = k # Word (length fs) # fields_words fs @ extra"
    from a c show "SaveComObj h (Ref b) = Inr (SubObj k # UIntW (length fs) # fields_items fs)"
      by (intro com_roundtrip(1)) blast+
    from a c show "LoadComObj h' (Ref d) (SubObj k # UIntW (length fs) # fields_items fs @ rest) =
          Inr (upd_bag h' d (y\<lparr>slots := k # Word (length fs) # fields_words fs @
                 drop (2 * length fs + 2) (slots y)\<rparr>), rest)"
      by (intro com_roundtrip(2)) blast+
  }
  {
    assume c: "slots x \<noteq> [] \<and> size x = 8 * length (slots x) \<and> size x < 2 ^ 64"
    from a c show "SavePosObj h (Ref b) = Inr (map SubObj (slots x))"
      by (intro pos_roundtrip(1) [where y = y and h' = h' and d = d]) blast+
    from a c show "LoadPosObj h' (Ref d) (map SubObj (slots x) @ rest) = Inr (upd_bag h' d x, rest)"
      by (intro pos_roundtrip(2) [where h = h and b = b]) blast+
  }
  {
    assume c: "slots x = k # map Word ws \<and> length (slots x) = WORDS (size x) \<and> size x < 2 ^ 64"
    from a c show "SaveDatObj h (Ref b) = Inr (SubObj k # map UIntW ws)"
      by (intro dat_roundtrip(1) [where y = y and h' = h' and d = d]) blast+
    from a c show "LoadDatObj h' (Ref d) (SubObj k # map UIntW ws @ rest) = Inr (upd_bag h' d x, rest)"
      by (intro dat_roundtrip(2) [where h = h and b = b]) blast+
  }
qed

text \<open>
  C9 on the three objects of \<open>heap3\<close>, loaded into its three empty cells.
\<close>

theorem save_load_roundtrip_witness:
  "SaveComObj heap3 (Ref 0) =
     Inr [SubObj (Ref 2), UIntW 2, UIntW 17, SubObj (IntObj 1), UIntW 19, SubObj (Ref 1)] \<and>
   LoadComObj heap3 (Ref 5)
       [SubObj (Ref 2), UIntW 2, UIntW 17, SubObj (IntObj 1), UIntW 19, SubObj (Ref 1)] =
     Inr (upd_bag heap3 5 \<lparr>tnum = T_COMOBJ, size = 64,
       slots = [Ref 2, Word 2, Word 17, IntObj 1, Word 19, Ref 1, Null, Null]\<rparr>, []) \<and>
   SavePosObj heap3 (Ref 2) = Inr [SubObj (Ref 2), SubObj (Ref 1)] \<and>
   LoadPosObj heap3 (Ref 7) [SubObj (Ref 2), SubObj (Ref 1)] =
     Inr (upd_bag heap3 7 \<lparr>tnum = T_POSOBJ, size = 16, slots = [Ref 2, Ref 1]\<rparr>, []) \<and>
   SaveDatObj heap3 (Ref 1) = Inr [SubObj (Ref 2), UIntW 7, UIntW 9] \<and>
   LoadDatObj heap3 (Ref 6) [SubObj (Ref 2), UIntW 7, UIntW 9] =
     Inr (upd_bag heap3 6 \<lparr>tnum = T_DATOBJ, size = 20, slots = [Ref 2, Word 7, Word 9]\<rparr>, [])"
proof -
  have c: "SaveComObj heap3 (Ref 0) =
     Inr [SubObj (Ref 2), UIntW 2, UIntW 17, SubObj (IntObj 1), UIntW 19, SubObj (Ref 1)] \<and>
   LoadComObj heap3 (Ref 5)
       [SubObj (Ref 2), UIntW 2, UIntW 17, SubObj (IntObj 1), UIntW 19, SubObj (Ref 1)] =
     Inr (upd_bag heap3 5 \<lparr>tnum = T_COMOBJ, size = 64,
       slots = [Ref 2, Word 2, Word 17, IntObj 1, Word 19, Ref 1, Null, Null]\<rparr>, [])"
    using save_load_roundtrip [where h = heap3 and h' = heap3 and b = 0 and d = 5
        and x = "\<lparr>tnum = T_COMOBJ, size = 64,
          slots = [Ref 2, Word 2, Word 17, IntObj 1, Word 19, Ref 1, Null, Null]\<rparr>"
        and y = "\<lparr>tnum = T_COMOBJ, size = 64, slots = replicate 8 Null\<rparr>"
        and k = "Ref 2" and fs = "[(17, IntObj 1), (19, Ref 1)]" and extra = "[Null, Null]"
        and rest = "[]"]
    by (simp add: heap3_def numeral_2_eq_2)
  have p: "SavePosObj heap3 (Ref 2) = Inr [SubObj (Ref 2), SubObj (Ref 1)] \<and>
   LoadPosObj heap3 (Ref 7) [SubObj (Ref 2), SubObj (Ref 1)] =
     Inr (upd_bag heap3 7 \<lparr>tnum = T_POSOBJ, size = 16, slots = [Ref 2, Ref 1]\<rparr>, [])"
    using save_load_roundtrip [where h = heap3 and h' = heap3 and b = 2 and d = 7
        and x = "\<lparr>tnum = T_POSOBJ, size = 16, slots = [Ref 2, Ref 1]\<rparr>"
        and y = "\<lparr>tnum = T_POSOBJ, size = 16, slots = replicate 2 Null\<rparr>"
        and rest = "[]"]
    by (simp add: heap3_def)
  have d: "SaveDatObj heap3 (Ref 1) = Inr [SubObj (Ref 2), UIntW 7, UIntW 9] \<and>
   LoadDatObj heap3 (Ref 6) [SubObj (Ref 2), UIntW 7, UIntW 9] =
     Inr (upd_bag heap3 6 \<lparr>tnum = T_DATOBJ, size = 20, slots = [Ref 2, Word 7, Word 9]\<rparr>, [])"
    using save_load_roundtrip [where h = heap3 and h' = heap3 and b = 1 and d = 6
        and x = "\<lparr>tnum = T_DATOBJ, size = 20, slots = [Ref 2, Word 7, Word 9]\<rparr>"
        and y = "\<lparr>tnum = T_DATOBJ, size = 20, slots = replicate 3 Null\<rparr>"
        and k = "Ref 2" and ws = "[7, 9]" and rest = "[]"]
    by (simp add: heap3_def WORDS_def)
  from c p d show ?thesis by simp
qed

section \<open>Deep copy and clean: what is proved\<close>

lemma leave_forwarding_pointer_eq:
  assumes "bags h b = Some x" and "slots x \<noteq> []" and "bags h (nextbag h) = None"
  shows "\<exists>h1. leave_forwarding_pointer h b c = Inr h1 \<and> nextbag h1 = Suc (nextbag h) \<and>
    (\<forall>k. bags h1 k =
       (if k = b then Some (x\<lparr>tnum := tnum x + COPYING, slots := (slots x)[0 := Ref (nextbag h)]\<rparr>)
        else if k = nextbag h
          then Some \<lparr>tnum = T_PLIST, size = 24, slots = [IntObj 2, slots x ! 0, Ref c]\<rparr>
        else bags h k))"
proof -
  from assms have ne: "b \<noteq> nextbag h" by auto
  show ?thesis
    using assms ne
    by (simp add: leave_forwarding_pointer_def NEW_PLIST_def NewBag_def SET_LEN_PLIST_def
        SET_ELM_PLIST_def set_slot_def get_slot_def upd_bag_def bindE_def TNUM_OBJ_def
        RetypeBag_def WORDS_def numeral_3_eq_3)
qed

lemma bindE_Inr: "bindE m f = Inr r \<longleftrightarrow> (\<exists>x. m = Inr x \<and> f x = Inr r)"
  by (cases m) (simp_all add: bindE_def)

lemma set_slot_Inr:
  assumes "set_slot h c i v = Inr h'"
  shows "\<exists>y. bags h c = Some y \<and> i < length (slots y) \<and> nextbag h' = nextbag h \<and>
    (\<forall>k. bags h' k = (if k = c then Some (y\<lparr>slots := (slots y)[i := v]\<rparr>) else bags h k))"
  using assms by (auto simp: set_slot_def upd_bag_def split: option.splits if_splits)

lemma get_slot_Inr:
  assumes "get_slot h c i = Inr v"
  shows "\<exists>y. bags h c = Some y \<and> i < length (slots y) \<and> v = slots y ! i"
  using assms by (auto simp: get_slot_def split: option.splits if_splits)

lemma IS_MUTABLE_OBJ_True:
  assumes "IS_MUTABLE_OBJ L h obj = Inr True"
  shows "\<exists>b x. obj = Ref b \<and> bags h b = Some x \<and> slots x \<noteq> [] \<and>
     (tnum x = T_COMOBJ \<or> tnum x = T_POSOBJ \<or> tnum x = T_DATOBJ) \<and> mutable_kind L (slots x ! 0)"
  using assms
  by (auto simp: IS_MUTABLE_OBJ_def TYPE_OBJ_def TNUM_OBJ_def get_slot_def bindE_def tnum_defs
      split: sum.splits if_splits Obj.splits option.splits)

lemma begin_copy_Started:
  assumes bc: "begin_copy L h obj mut com = Inr (Started h1 b c)"
    and fresh: "\<forall>k. nextbag h \<le> k \<longrightarrow> bags h k = None"
  shows "\<exists>x y. obj = Ref b \<and> c = nextbag h \<and> bags h b = Some x \<and> slots x \<noteq> [] \<and>
     (tnum x = T_COMOBJ \<or> tnum x = T_POSOBJ \<or> tnum x = T_DATOBJ) \<and>
     mutable_kind L (slots x ! 0) \<and>
     nextbag h1 = Suc (Suc c) \<and> tnum y = tnum x \<and> size y = size x \<and>
     length (slots y) = WORDS (size x) \<and>
     (\<forall>j. (if com then 2 else 1) \<le> j \<and> j < length (slots y) \<longrightarrow> slots y ! j = Null) \<and>
     (\<forall>k. bags h1 k =
        (if k = b then Some (x\<lparr>tnum := tnum x + COPYING, slots := (slots x)[0 := Ref (Suc c)]\<rparr>)
         else if k = Suc c
           then Some \<lparr>tnum = T_PLIST, size = 24, slots = [IntObj 2, slots x ! 0, Ref c]\<rparr>
         else if k = c then Some y else bags h k))"
proof -
  from bc have m: "IS_MUTABLE_OBJ L h obj = Inr True"
    by (auto simp: begin_copy_def bindE_def split: sum.splits if_splits)
  then obtain b' x where o: "obj = Ref b'" and bx: "bags h b' = Some x" and ne: "slots x \<noteq> []"
    and t: "tnum x = T_COMOBJ \<or> tnum x = T_POSOBJ \<or> tnum x = T_DATOBJ"
    and mk: "mutable_kind L (slots x ! 0)"
    using IS_MUTABLE_OBJ_True by blast
  from bx fresh have lt: "b' < nextbag h"
    by (metis not_le option.distinct(1))
  let ?c = "nextbag h"
  let ?h1 = "h\<lparr>bags := (bags h)(?c \<mapsto> \<lparr>tnum = tnum x, size = size x,
        slots = replicate (WORDS (size x)) Null\<rparr>), nextbag := Suc ?c\<rparr>"
  have h1: "nextbag ?h1 = Suc ?c"
    "\<And>k. bags ?h1 k = (if k = ?c then Some \<lparr>tnum = tnum x, size = size x,
        slots = replicate (WORDS (size x)) Null\<rparr> else bags h k)"
    by simp_all
  have ne': "b' \<noteq> ?c" using lt by simp
  from bc m have cp: "IS_COPYABLE_OBJ L h obj = Inr True"
    by (auto simp: begin_copy_def bindE_def split: sum.splits if_splits)
  have eq: "begin_copy L h obj mut com =
    bindE (set_slot ?h1 ?c 0 (slots x ! 0)) (\<lambda>h2.
    bindE (if com then bindE (LEN_PREC h2 b') (SET_LEN_PREC h2 ?c) else Inr h2) (\<lambda>h3.
    bindE (if mut then Inr h3 else RESET_FILTER_OBJ_mutable L h3 ?c) (\<lambda>h4.
    bindE (leave_forwarding_pointer h4 b' ?c) (\<lambda>h5. Inr (Started h5 b' ?c)))))"
    using m cp bx ne ne' unfolding o
    by (simp add: begin_copy_def TNUM_OBJ_def SIZE_OBJ_def get_slot_def NewBag_def
        bindE_def [of "Inr _"])
  from bc have "\<exists>h2 h3 h4.
    set_slot ?h1 ?c 0 (slots x ! 0) = Inr h2 \<and>
    (if com then bindE (LEN_PREC h2 b') (SET_LEN_PREC h2 ?c) else Inr h2) = Inr h3 \<and>
    (if mut then Inr h3 else RESET_FILTER_OBJ_mutable L h3 ?c) = Inr h4 \<and>
    bindE (leave_forwarding_pointer h4 b' ?c) (\<lambda>h5. Inr (Started h5 b' ?c)) = Inr (Started h1 b c)"
    unfolding eq bindE_Inr [of "set_slot _ _ _ _"] bindE_Inr [of "If com _ _"] bindE_Inr [of "If mut _ _"]
    by blast
  then obtain h2 h3 h4 where
    s2: "set_slot ?h1 ?c 0 (slots x ! 0) = Inr h2"
    and s3: "(if com then bindE (LEN_PREC h2 b') (SET_LEN_PREC h2 ?c) else Inr h2) = Inr h3"
    and s4: "(if mut then Inr h3 else RESET_FILTER_OBJ_mutable L h3 ?c) = Inr h4"
    and s5: "bindE (leave_forwarding_pointer h4 b' ?c) (\<lambda>h5. Inr (Started h5 b' ?c)) = Inr (Started h1 b c)"
    by blast
  have shape: "\<exists>y. tnum y = tnum x \<and> size y = size x \<and> length (slots y) = WORDS (size x) \<and>
      (\<forall>j. (if com then 2 else 1) \<le> j \<and> j < length (slots y) \<longrightarrow> slots y ! j = Null) \<and>
      nextbag g = Suc ?c \<and> (\<forall>k. bags g k = (if k = ?c then Some y else bags h k)) \<Longrightarrow>
      set_slot g ?c i v = Inr g' \<Longrightarrow> i < (if com then 2 else 1) \<Longrightarrow>
      \<exists>y. tnum y = tnum x \<and> size y = size x \<and> length (slots y) = WORDS (size x) \<and>
      (\<forall>j. (if com then 2 else 1) \<le> j \<and> j < length (slots y) \<longrightarrow> slots y ! j = Null) \<and>
      nextbag g' = Suc ?c \<and> (\<forall>k. bags g' k = (if k = ?c then Some y else bags h k))" for g g' i v
    by (drule set_slot_Inr) (auto split: if_splits)
  have p1: "\<exists>y. tnum y = tnum x \<and> size y = size x \<and> length (slots y) = WORDS (size x) \<and>
      (\<forall>j. (if com then 2 else 1) \<le> j \<and> j < length (slots y) \<longrightarrow> slots y ! j = Null) \<and>
      nextbag ?h1 = Suc ?c \<and> (\<forall>k. bags ?h1 k = (if k = ?c then Some y else bags h k))"
    by (simp add: h1)
  have p2: "\<exists>y. tnum y = tnum x \<and> size y = size x \<and> length (slots y) = WORDS (size x) \<and>
      (\<forall>j. (if com then 2 else 1) \<le> j \<and> j < length (slots y) \<longrightarrow> slots y ! j = Null) \<and>
      nextbag h2 = Suc ?c \<and> (\<forall>k. bags h2 k = (if k = ?c then Some y else bags h k))"
    using p1 s2 by (rule shape) simp
  have p3: "\<exists>y. tnum y = tnum x \<and> size y = size x \<and> length (slots y) = WORDS (size x) \<and>
      (\<forall>j. (if com then 2 else 1) \<le> j \<and> j < length (slots y) \<longrightarrow> slots y ! j = Null) \<and>
      nextbag h3 = Suc ?c \<and> (\<forall>k. bags h3 k = (if k = ?c then Some y else bags h k))"
  proof (cases com)
    case True
    with s3 obtain len where "set_slot h2 ?c 1 (Word len) = Inr h3"
      by (auto simp: bindE_def SET_LEN_PREC_def split: sum.splits)
    with p2 show ?thesis by (rule shape) (simp add: True)
  next
    case False
    with s3 p2 show ?thesis by simp
  qed
  have p4: "\<exists>y. tnum y = tnum x \<and> size y = size x \<and> length (slots y) = WORDS (size x) \<and>
      (\<forall>j. (if com then 2 else 1) \<le> j \<and> j < length (slots y) \<longrightarrow> slots y ! j = Null) \<and>
      nextbag h4 = Suc ?c \<and> (\<forall>k. bags h4 k = (if k = ?c then Some y else bags h k))"
  proof (cases mut)
    case False
    with s4 obtain k where "set_slot h3 ?c 0 k = Inr h4"
      by (auto simp: bindE_def RESET_FILTER_OBJ_mutable_def split: sum.splits)
    with p3 show ?thesis by (rule shape) simp
  next
    case True
    with s4 p3 show ?thesis by simp
  qed
  then obtain y where y: "tnum y = tnum x" "size y = size x" "length (slots y) = WORDS (size x)"
    "\<forall>j. (if com then 2 else 1) \<le> j \<and> j < length (slots y) \<longrightarrow> slots y ! j = Null"
    and n4: "nextbag h4 = Suc ?c" and b4: "\<forall>k. bags h4 k = (if k = ?c then Some y else bags h k)"
    by blast
  have bx4: "bags h4 b' = Some x" using b4 bx lt by simp
  have f4: "bags h4 (nextbag h4) = None" using b4 n4 fresh by simp
  from leave_forwarding_pointer_eq [OF bx4 ne f4, of ?c] s5
  have b: "b = b'" and c: "c = ?c" and n1: "nextbag h1 = Suc (nextbag h4)"
    and b1: "\<forall>k. bags h1 k =
       (if k = b' then Some (x\<lparr>tnum := tnum x + COPYING, slots := (slots x)[0 := Ref (nextbag h4)]\<rparr>)
        else if k = nextbag h4
          then Some \<lparr>tnum = T_PLIST, size = 24, slots = [IntObj 2, slots x ! 0, Ref ?c]\<rparr>
        else bags h4 k)"
    by (auto simp: bindE_def)
  show ?thesis
    using o bx ne t mk y b c n1 b1 n4 b4 by (intro exI [of _ x] exI [of _ y]) simp
qed

lemma marked_as_lt:
  assumes "copy_inv h0 h" and "marked_as h0 h b c"
  shows "Suc c < nextbag h"
proof (rule ccontr)
  assume "\<not> Suc c < nextbag h"
  with assms(1) have "bags h (Suc c) = None" by (simp add: copy_inv_def)
  with assms(2) show False by (simp add: marked_as_def split: option.splits)
qed

lemma marked_as_original:
  assumes "heap_ok h0" and "marked_as h0 h b c"
  shows "b < nextbag h0"
proof (rule ccontr)
  assume "\<not> b < nextbag h0"
  with assms(1) have "bags h0 b = None" by (simp add: heap_ok_def)
  with assms(2) show False by (simp add: marked_as_def)
qed

lemma marked_as_cong:
  assumes "bags h' b = bags h b" and "bags h' (Suc c) = bags h (Suc c)"
  shows "marked_as h0 h' b c = marked_as h0 h b c"
  unfolding marked_as_def assms by (rule refl)

lemma copy_step_refl: "copy_inv h0 h \<Longrightarrow> copy_step h0 h h S"
  by (simp add: copy_step_def)

lemma copy_step_mono: "copy_step h0 h h' {} \<Longrightarrow> copy_step h0 h h' S"
  by (simp add: copy_step_def)

lemma copy_step_trans:
  assumes "copy_step h0 h h1 S" and "copy_step h0 h1 h2 S"
  shows "copy_step h0 h h2 S"
  unfolding copy_step_def
proof (intro conjI allI impI)
  show "copy_inv h0 h2" using assms(2) by (simp add: copy_step_def)
  show "nextbag h \<le> nextbag h2" using assms by (simp add: copy_step_def)
  show "marked_as h0 h2 b c" if "marked_as h0 h b c" for b c
    using that assms by (simp add: copy_step_def)
  show "marked_as h0 h b c \<or> nextbag h \<le> c" if "marked_as h0 h2 b c" for b c
  proof -
    from that assms(2) have "marked_as h0 h1 b c \<or> nextbag h1 \<le> c"
      by (simp add: copy_step_def)
    moreover have "nextbag h \<le> nextbag h1" using assms(1) by (simp add: copy_step_def)
    ultimately show ?thesis using assms(1) by (auto simp: copy_step_def)
  qed
  show "bags h2 k = bags h k" if "nextbag h0 \<le> k \<and> k < nextbag h \<and> k \<notin> S" for k
  proof -
    have "nextbag h \<le> nextbag h1" using assms(1) by (simp add: copy_step_def)
    with that have "bags h2 k = bags h1 k" using assms(2) by (simp add: copy_step_def)
    also have "\<dots> = bags h k" using that assms(1) by (simp add: copy_step_def)
    finally show ?thesis .
  qed
qed

lemma parented_trans:
  assumes s1: "copy_step h0 h h1 S" and s2: "copy_step h0 h1 h2 S"
    and p1: "parented h0 h h1 root" and p2: "parented h0 h1 h2 None"
  shows "parented h0 h h2 root"
  unfolding parented_def
proof (intro allI impI)
  fix w c assume a: "marked_as h0 h2 w c \<and> nextbag h \<le> c"
  from a s2 have "marked_as h0 h1 w c \<or> nextbag h1 \<le> c" by (simp add: copy_step_def)
  then show "root = Some (Ref w) \<or> (\<exists>w' c'. marked_as h0 h2 w' c' \<and> c' < c \<and> child h0 w' w)"
  proof
    assume "marked_as h0 h1 w c"
    with a p1 have "root = Some (Ref w) \<or> (\<exists>w' c'. marked_as h0 h1 w' c' \<and> c' < c \<and> child h0 w' w)"
      by (simp add: parented_def)
    then show ?thesis using s2 by (auto simp: copy_step_def)
  next
    assume "nextbag h1 \<le> c"
    with a p2 show ?thesis by (simp add: parented_def)
  qed
qed

lemma copy_inv_cases:
  "copy_inv h0 h \<Longrightarrow> b < nextbag h0 \<Longrightarrow> bags h b = bags h0 b \<or> (\<exists>c. marked_as h0 h b c)"
  by (simp add: copy_inv_def)

lemma marked_not_same:
  assumes "marked_as h0 h b c"
  shows "bags h b \<noteq> bags h0 b"
proof
  assume e: "bags h b = bags h0 b"
  from assms obtain x where x: "bags h0 b = Some x"
    and m: "bags h b = Some (x\<lparr>tnum := tnum x + COPYING, slots := (slots x)[0 := Ref (Suc c)]\<rparr>)"
    by (cases "bags h0 b") (simp_all add: marked_as_def)
  from e x m have "x\<lparr>tnum := tnum x + COPYING, slots := (slots x)[0 := Ref (Suc c)]\<rparr> = x"
    by simp
  then have "tnum (x\<lparr>tnum := tnum x + COPYING, slots := (slots x)[0 := Ref (Suc c)]\<rparr>) = tnum x"
    by simp
  then show False by (simp add: COPYING_def)
qed

lemma marked_as_bag_eq:
  assumes "marked_as h0 h b c" and "marked_as h0 h' b c'" and "bags h' b = bags h b"
  shows "c' = c"
proof -
  from assms(1) obtain x where x: "bags h0 b = Some x" "slots x \<noteq> []"
    and m: "bags h b = Some (x\<lparr>tnum := tnum x + COPYING, slots := (slots x)[0 := Ref (Suc c)]\<rparr>)"
    by (cases "bags h0 b") (simp_all add: marked_as_def)
  from assms(2) x have m': "bags h' b = Some (x\<lparr>tnum := tnum x + COPYING, slots := (slots x)[0 := Ref (Suc c')]\<rparr>)"
    by (simp add: marked_as_def)
  from m m' assms(3) have "slots (x\<lparr>tnum := tnum x + COPYING, slots := (slots x)[0 := Ref (Suc c')]\<rparr>) =
      slots (x\<lparr>tnum := tnum x + COPYING, slots := (slots x)[0 := Ref (Suc c)]\<rparr>)"
    by simp
  then have "(slots x)[0 := Ref (Suc c')] ! 0 = (slots x)[0 := Ref (Suc c)] ! 0"
    by simp
  with x(2) show ?thesis by simp
qed

lemma marked_as_transfer:
  assumes inv: "copy_inv h0 h" and ok: "heap_ok h0"
    and m: "marked_as h0 h' b c" and e: "bags h' b = bags h b"
  shows "\<exists>c'. marked_as h0 h b c' \<and> (bags h' (Suc c') = bags h (Suc c') \<longrightarrow> True)"
    and "\<And>c'. marked_as h0 h b c' \<Longrightarrow> c' = c"
proof -
  have lt: "b < nextbag h0" using ok m by (rule marked_as_original)
  from m e have "bags h b \<noteq> bags h0 b" using marked_not_same by fastforce
  with inv lt obtain c' where c': "marked_as h0 h b c'" by (auto simp: copy_inv_def)
  then show "\<exists>c'. marked_as h0 h b c' \<and> (bags h' (Suc c') = bags h (Suc c') \<longrightarrow> True)" by blast
  show "c' = c" if "marked_as h0 h b c'" for c'
    using that m e by (rule marked_as_bag_eq [symmetric])
qed

lemma set_slot_copy_step:
  assumes inv: "copy_inv h0 h" and ok: "heap_ok h0"
    and s: "set_slot h c0 i v = Inr h'" and ge: "nextbag h0 \<le> c0"
    and nf: "\<forall>b c. marked_as h0 h b c \<longrightarrow> Suc c \<noteq> c0"
  shows "copy_step h0 h h' {c0}" and "parented h0 h h' None"
    and "\<forall>b c. marked_as h0 h' b c \<longrightarrow> marked_as h0 h b c"
proof -
  from set_slot_Inr [OF s] obtain y where y: "bags h c0 = Some y" and n: "nextbag h' = nextbag h"
    and b: "\<And>k. bags h' k = (if k = c0 then Some (y\<lparr>slots := (slots y)[i := v]\<rparr>) else bags h k)"
    by blast
  have c0: "c0 < nextbag h"
    using inv y by (metis copy_inv_def not_le option.distinct(1))
  have keep: "marked_as h0 h' b c" if m: "marked_as h0 h b c" for b c
  proof -
    have "b < nextbag h0" using ok m by (rule marked_as_original)
    with ge have "bags h' b = bags h b" by (simp add: b)
    moreover from nf m have "bags h' (Suc c) = bags h (Suc c)" by (simp add: b)
    ultimately have "marked_as h0 h' b c = marked_as h0 h b c" by (rule marked_as_cong)
    with m show ?thesis by simp
  qed
  have old: "marked_as h0 h b c" if m: "marked_as h0 h' b c" for b c
  proof -
    have lt: "b < nextbag h0" using ok m by (rule marked_as_original)
    with ge have e: "bags h' b = bags h b" by (simp add: b)
    from marked_as_transfer [OF inv ok m e] obtain c' where c': "marked_as h0 h b c'" and "c' = c"
      by blast
    then show ?thesis by simp
  qed
  show "\<forall>b c. marked_as h0 h' b c \<longrightarrow> marked_as h0 h b c" using old by blast
  have inv': "copy_inv h0 h'"
    unfolding copy_inv_def
  proof (intro conjI allI impI)
    show "nextbag h0 \<le> nextbag h'" using inv n by (simp add: copy_inv_def)
    show "bags h' k = None" if "nextbag h' \<le> k" for k
      using that inv n c0 by (simp add: b copy_inv_def)
    show "bags h' b' = bags h0 b' \<or> (\<exists>c. marked_as h0 h' b' c)" if "b' < nextbag h0" for b'
    proof -
      from that ge have "bags h' b' = bags h b'" by (simp add: b)
      with copy_inv_cases [OF inv that] keep show ?thesis by auto
    qed
    show "tnum z \<le> LAST_REAL_TNUM" if "nextbag h0 \<le> k" "bags h' k = Some z" for k z
    proof (cases "k = c0")
      case True
      with that have "tnum z = tnum y" by (auto simp: b)
      with inv y ge show ?thesis by (auto simp: copy_inv_def)
    next
      case False
      with that inv show ?thesis by (auto simp: b copy_inv_def)
    qed
  qed
  show "copy_step h0 h h' {c0}"
    unfolding copy_step_def using inv' n keep old by (auto simp: b)
  show "parented h0 h h' None"
    unfolding parented_def
  proof (intro allI impI)
    fix w c assume a: "marked_as h0 h' w c \<and> nextbag h \<le> c"
    then have "marked_as h0 h w c" using old by blast
    with inv have "Suc c < nextbag h" by (rule marked_as_lt)
    with a show "None = Some (Ref w) \<or> (\<exists>w' c'. marked_as h0 h' w' c' \<and> c' < c \<and> child h0 w' w)"
      by simp
  qed
qed

lemma begin_copy_step:
  assumes inv: "copy_inv h0 h" and ok: "heap_ok h0"
    and bc: "begin_copy L h obj mut com = Inr (Started h1 b c)"
    and un: "bags h b = bags h0 b"
  shows "copy_step h0 h h1 {}" and "marked_as h0 h1 b c" and "c = nextbag h"
    and "parented h0 h h1 (Some obj)" and "obj = Ref b"
    and "\<forall>b' c'. marked_as h0 h1 b' c' \<longrightarrow> Suc c' \<noteq> c"
    and "nextbag h1 = Suc (Suc c)"
    and "\<exists>x. bags h0 b = Some x \<and> tnum x = (case TNUM_OBJ h obj of Inr t \<Rightarrow> t | _ \<Rightarrow> 0)"
proof -
  from inv have fresh: "\<forall>k. nextbag h \<le> k \<longrightarrow> bags h k = None" by (simp add: copy_inv_def)
  from begin_copy_Started [OF bc fresh] obtain x y where o: "obj = Ref b" and c: "c = nextbag h"
    and bx: "bags h b = Some x" and ne: "slots x \<noteq> []"
    and t: "tnum x = T_COMOBJ \<or> tnum x = T_POSOBJ \<or> tnum x = T_DATOBJ"
    and n1: "nextbag h1 = Suc (Suc c)" and ty: "tnum y = tnum x"
    and b1: "\<And>k. bags h1 k =
        (if k = b then Some (x\<lparr>tnum := tnum x + COPYING, slots := (slots x)[0 := Ref (Suc c)]\<rparr>)
         else if k = Suc c
           then Some \<lparr>tnum = T_PLIST, size = 24, slots = [IntObj 2, slots x ! 0, Ref c]\<rparr>
         else if k = c then Some y else bags h k)"
    by blast
  from un bx have bx0: "bags h0 b = Some x" by simp
  with ok have lt: "b < nextbag h0"
    by (metis heap_ok_def not_le option.distinct(1))
  from inv have ge: "nextbag h0 \<le> nextbag h" by (simp add: copy_inv_def)
  show "obj = Ref b" by (rule o)
  show "c = nextbag h" by (rule c)
  show "nextbag h1 = Suc (Suc c)" by (rule n1)
  show "\<exists>x. bags h0 b = Some x \<and> tnum x = (case TNUM_OBJ h obj of Inr t \<Rightarrow> t | _ \<Rightarrow> 0)"
    using bx0 bx o by (simp add: TNUM_OBJ_def)
  show m1: "marked_as h0 h1 b c"
    using bx0 ne t lt ge c by (auto simp: marked_as_def b1)
  have keep: "marked_as h0 h1 b' c'" if m: "marked_as h0 h b' c'" for b' c'
  proof -
    have l: "b' < nextbag h0" using ok m by (rule marked_as_original)
    have s: "Suc c' < nextbag h" using inv m by (rule marked_as_lt)
    have "b' \<noteq> b" using marked_not_same [OF m] un by auto
    with l ge c have "bags h1 b' = bags h b'" by (simp add: b1)
    moreover from s c have "bags h1 (Suc c') = bags h (Suc c')"
    proof -
      from m have "nextbag h0 \<le> c'" by (auto simp: marked_as_def split: option.splits)
      with lt have "Suc c' \<noteq> b" by simp
      with s c show ?thesis by (simp add: b1)
    qed
    ultimately have "marked_as h0 h1 b' c' = marked_as h0 h b' c'" by (rule marked_as_cong)
    with m show ?thesis by simp
  qed
  have old: "marked_as h0 h b' c' \<or> (b' = b \<and> c' = c)" if m: "marked_as h0 h1 b' c'" for b' c'
  proof (cases "b' = b")
    case True
    with m m1 have "c' = c" using marked_as_bag_eq by blast
    with True show ?thesis by simp
  next
    case False
    have l: "b' < nextbag h0" using ok m by (rule marked_as_original)
    with False ge c have e: "bags h1 b' = bags h b'" by (simp add: b1)
    from marked_as_transfer [OF inv ok m e] obtain c'' where c'': "marked_as h0 h b' c''"
      and "c'' = c'" by blast
    then show ?thesis by simp
  qed
  have inv1: "copy_inv h0 h1"
    unfolding copy_inv_def
  proof (intro conjI allI impI)
    show "nextbag h0 \<le> nextbag h1" using ge n1 c by simp
    show "bags h1 k = None" if "nextbag h1 \<le> k" for k
      using that fresh n1 c lt ge by (simp add: b1)
    show "bags h1 b' = bags h0 b' \<or> (\<exists>c. marked_as h0 h1 b' c)" if "b' < nextbag h0" for b'
    proof (cases "b' = b")
      case True
      with m1 show ?thesis by blast
    next
      case False
      with that ge c have "bags h1 b' = bags h b'" by (simp add: b1)
      with copy_inv_cases [OF inv that] keep show ?thesis by auto
    qed
    show "tnum z \<le> LAST_REAL_TNUM" if "nextbag h0 \<le> k" "bags h1 k = Some z" for k z
    proof -
      from that lt have kb: "k \<noteq> b" by simp
      from ok bx0 have tx: "tnum x \<le> LAST_REAL_TNUM" by (simp add: heap_ok_def)
      show ?thesis
      proof (cases "k = Suc c \<or> k = c")
        case True
        with that kb ty tx show ?thesis by (auto simp: b1 tnum_defs)
      next
        case False
        with that kb inv show ?thesis by (auto simp: b1 copy_inv_def)
      qed
    qed
  qed
  show "copy_step h0 h h1 {}"
    unfolding copy_step_def
  proof (intro conjI allI impI)
    show "copy_inv h0 h1" by (rule inv1)
    show "nextbag h \<le> nextbag h1" using n1 c by simp
    show "marked_as h0 h1 b' c'" if "marked_as h0 h b' c'" for b' c' using that by (rule keep)
    show "marked_as h0 h b' c' \<or> nextbag h \<le> c'" if "marked_as h0 h1 b' c'" for b' c'
      using old [OF that] c by auto
    show "bags h1 k = bags h k" if "nextbag h0 \<le> k \<and> k < nextbag h \<and> k \<notin> {}" for k
      using that lt c by (simp add: b1)
  qed
  show "parented h0 h h1 (Some obj)"
    unfolding parented_def
  proof (intro allI impI)
    fix w c' assume a: "marked_as h0 h1 w c' \<and> nextbag h \<le> c'"
    with old have "marked_as h0 h w c' \<or> (w = b \<and> c' = c)" by blast
    moreover have "\<not> marked_as h0 h w c'"
      using a marked_as_lt [OF inv] by fastforce
    ultimately show "Some obj = Some (Ref w) \<or>
        (\<exists>w' c''. marked_as h0 h1 w' c'' \<and> c'' < c' \<and> child h0 w' w)"
      using o by simp
  qed
  show "\<forall>b' c'. marked_as h0 h1 b' c' \<longrightarrow> Suc c' \<noteq> c"
  proof (intro allI impI)
    fix b' c' assume "marked_as h0 h1 b' c'"
    with old have "marked_as h0 h b' c' \<or> (b' = b \<and> c' = c)" by blast
    then show "Suc c' \<noteq> c"
      using marked_as_lt [OF inv] c by fastforce
  qed
qed

lemma COPY_OBJ_Suc_cases:
  assumes "COPY_OBJ L (Suc n) h obj mut = Some (Inr (h', r))"
  shows "h' = h \<or>
    (\<exists>h1 b c. TNUM_OBJ h obj = Inr T_POSOBJ \<and> begin_copy L h obj mut False = Inr (Started h1 b c) \<and>
        CopyObjPosObj_subvalues L n h1 b c mut 1 = Some (Inr h') \<and> r = Ref c) \<or>
    (\<exists>h1 b c. TNUM_OBJ h obj = Inr T_COMOBJ \<and> begin_copy L h obj mut True = Inr (Started h1 b c) \<and>
        CopyObjComObj_subvalues L n h1 b c mut 1 = Some (Inr h') \<and> r = Ref c) \<or>
    (\<exists>h1 b c k. TNUM_OBJ h obj = Inr T_DATOBJ \<and> begin_copy L h obj mut False = Inr (Started h1 b c) \<and>
        copy_words h1 b c 1 k = Inr h' \<and> r = Ref c)"
proof -
  from assms obtain t where t: "TNUM_OBJ h obj = Inr t"
    by (cases "TNUM_OBJ h obj") auto
  from assms t obtain f where f: "CopyObjFuncs t = Some f"
    by (cases "CopyObjFuncs t") auto
  have tags: "f = CopyObjPosObj_fn \<Longrightarrow> t = T_POSOBJ" "f = CopyObjComObj_fn \<Longrightarrow> t = T_COMOBJ"
    "f = CopyObjDatObj_fn \<Longrightarrow> t = T_DATOBJ"
    using f by (auto simp: CopyObjFuncs_def split: if_splits)
  show ?thesis
  proof (cases f)
    case CopyObjPosObj_fn
    with assms t f tags show ?thesis
      by (auto split: sum.splits started.splits option.splits)
  next
    case CopyObjComObj_fn
    with assms t f tags show ?thesis
      by (auto split: sum.splits started.splits option.splits)
  next
    case CopyObjDatObj_fn
    with assms t f have d: "CopyObjDatObj L h obj mut = Inr (h', r)" by simp
    then obtain st where st: "begin_copy L h obj mut False = Inr st"
      and k: "(case st of Unchanged \<Rightarrow> Inr (h, obj)
        | Started h1 b copy \<Rightarrow>
           bindE (SIZE_OBJ h1 b) (\<lambda>sz.
           bindE (copy_words h1 b copy 1 (((sz + 2 ^ 64 - 8 + 8 - 1) mod 2 ^ 64) div 8)) (\<lambda>h2.
           Inr (h2, Ref copy)))) = Inr (h', r)"
      unfolding CopyObjDatObj_def bindE_Inr [of "begin_copy _ _ _ _ _"] by blast
    show ?thesis
    proof (cases st)
      case Unchanged
      with k show ?thesis by simp
    next
      case (Started h1 b c)
      with k obtain kk where "copy_words h1 b c 1 kk = Inr h'" and "r = Ref c"
        by (auto simp: bindE_Inr)
      with st Started t tags(3) [OF CopyObjDatObj_fn] show ?thesis by blast
    qed
  next
    case CopyObjError_fn
    with assms t f show ?thesis by simp
  next
    case CopyObjConstant_fn
    with assms t f show ?thesis by simp
  next
    case CopyObjPosObjCopy_fn
    with assms t f show ?thesis by (auto simp: CopyObjPosObjCopy_def bindE_Inr split: Obj.splits)
  next
    case CopyObjComObjCopy_fn
    with assms t f show ?thesis by (auto simp: CopyObjPosObjCopy_def bindE_Inr split: Obj.splits)
  next
    case CopyObjDatObjCopy_fn
    with assms t f show ?thesis by (auto simp: CopyObjPosObjCopy_def bindE_Inr split: Obj.splits)
  qed
qed

lemma CopyObjPosObj_subvalues_Suc_cases:
  assumes "CopyObjPosObj_subvalues L (Suc n) h b c mut i = Some (Inr h')"
  shows "\<exists>sz. SIZE_OBJ h b = Inr sz \<and>
    ((\<not> i < sz div 8 \<and> h' = h) \<or>
     (i < sz div 8 \<and> (\<exists>v. get_slot h b i = Inr v \<and>
        ((v = Null \<and> CopyObjPosObj_subvalues L n h b c mut (i + 1) = Some (Inr h')) \<or>
         (v \<noteq> Null \<and> (\<exists>h1 tmp h2. COPY_OBJ L n h v mut = Some (Inr (h1, tmp)) \<and>
            set_slot h1 c i tmp = Inr h2 \<and>
            CopyObjPosObj_subvalues L n h2 b c mut (i + 1) = Some (Inr h')))))))"
  using assms by (auto split: sum.splits option.splits if_splits)

lemma CopyObjComObj_subvalues_Suc_cases:
  assumes "CopyObjComObj_subvalues L (Suc n) h b c mut i = Some (Inr h')"
  shows "\<exists>len. LEN_PREC h b = Inr len \<and>
    ((\<not> i \<le> len \<and> h' = h) \<or>
     (i \<le> len \<and> (\<exists>rn ha v h1 tmp h2. GET_RNAM_PREC h b i = Inr rn \<and>
        SET_RNAM_PREC h c i rn = Inr ha \<and> GET_ELM_PREC ha b i = Inr v \<and>
        COPY_OBJ L n ha v mut = Some (Inr (h1, tmp)) \<and> SET_ELM_PREC h1 c i tmp = Inr h2 \<and>
        CopyObjComObj_subvalues L n h2 b c mut (i + 1) = Some (Inr h'))))"
  using assms by (auto simp: bindE_Inr split: sum.splits option.splits if_splits)

lemma parented_refl: "copy_inv h0 h \<Longrightarrow> parented h0 h h root"
  unfolding parented_def using marked_as_lt by fastforce

lemma copy_step_inv: "copy_step h0 h h' S \<Longrightarrow> copy_inv h0 h'"
  by (simp add: copy_step_def)

lemma copy_step_keep: "copy_step h0 h h' S \<Longrightarrow> marked_as h0 h b c \<Longrightarrow> marked_as h0 h' b c"
  by (simp add: copy_step_def)

lemma copy_step_nextbag: "copy_step h0 h h' S \<Longrightarrow> nextbag h \<le> nextbag h'"
  by (simp add: copy_step_def)

lemma copy_step_new: "copy_step h0 h h' S \<Longrightarrow> marked_as h0 h' b c \<Longrightarrow> marked_as h0 h b c \<or> nextbag h \<le> c"
  by (simp add: copy_step_def)

lemma copy_step_drop:
  assumes "copy_step h0 h h' S" and "\<forall>k\<in>S. nextbag h \<le> k"
  shows "copy_step h0 h h' {}"
  using assms unfolding copy_step_def by (auto simp: not_le [symmetric])

lemma marked_slots:
  assumes m: "marked_as h0 h b cb" and x: "bags h0 b = Some x"
  shows "SIZE_OBJ h b = Inr sz \<Longrightarrow> sz = size x"
    and "get_slot h b i = Inr v \<Longrightarrow> 1 \<le> i \<Longrightarrow> i < length (slots x) \<and> v = slots x ! i"
  using m x by (auto simp: marked_as_def SIZE_OBJ_def get_slot_def split: option.splits if_splits)

lemma heap_ok_closed:
  assumes "heap_ok h0" and "bags h0 b = Some x" and "i < length (slots x)"
  shows "closed_val (nextbag h0) (slots x ! i)"
  using assms by (auto simp: heap_ok_def)

lemma nf_step:
  assumes s: "copy_step h0 h h1 S" and inv: "copy_inv h0 h"
    and nf: "\<forall>b' c'. marked_as h0 h b' c' \<longrightarrow> Suc c' \<noteq> c0" and lt: "c0 < nextbag h"
  shows "\<forall>b' c'. marked_as h0 h1 b' c' \<longrightarrow> Suc c' \<noteq> c0"
proof (intro allI impI)
  fix b' c' assume "marked_as h0 h1 b' c'"
  with s have "marked_as h0 h b' c' \<or> nextbag h \<le> c'" by (rule copy_step_new)
  with nf lt show "Suc c' \<noteq> c0" by auto
qed

lemma child_parent:
  assumes s: "copy_step h0 h h1 {}" and inv: "copy_inv h0 h" and m: "marked_as h0 h b cb"
    and p: "parented h0 h h1 (Some (Ref w))" and ch: "child h0 b w"
  shows "parented h0 h h1 None"
  unfolding parented_def
proof (intro allI impI)
  fix w' c assume a: "marked_as h0 h1 w' c \<and> nextbag h \<le> c"
  with p have "Some (Ref w) = Some (Ref w') \<or> (\<exists>w'' c'. marked_as h0 h1 w'' c' \<and> c' < c \<and> child h0 w'' w')"
    by (simp add: parented_def)
  then show "None = Some (Ref w') \<or> (\<exists>w'' c'. marked_as h0 h1 w'' c' \<and> c' < c \<and> child h0 w'' w')"
  proof
    assume "Some (Ref w) = Some (Ref w')"
    then have e: "w' = w" by simp
    have "marked_as h0 h1 b cb" using s m by (rule copy_step_keep)
    moreover have "cb < c" using marked_as_lt [OF inv m] a by simp
    ultimately show ?thesis using ch e by blast
  qed simp
qed

lemma not_ref_parented:
  assumes p: "parented h0 h h1 (Some v)" and "\<forall>w. v \<noteq> Ref w"
  shows "parented h0 h h1 None"
  using assms unfolding parented_def by fastforce

lemma pos_case:
  assumes ok: "heap_ok h0" and IHc: "copy_ok L h0 n" and IHp: "pos_ok L h0 n"
  shows "pos_ok L h0 (Suc n)"
  unfolding pos_ok_def
proof (intro allI impI)
  fix h b cb c0 mut i h' x
  assume inv: "copy_inv h0 h" and m: "marked_as h0 h b cb" and x: "bags h0 b = Some x"
    and tx: "tnum x = T_POSOBJ" and ge: "nextbag h0 \<le> c0" and lt: "c0 < nextbag h"
    and nf: "\<forall>b' c'. marked_as h0 h b' c' \<longrightarrow> Suc c' \<noteq> c0" and i: "1 \<le> i"
    and run: "CopyObjPosObj_subvalues L (Suc n) h b c0 mut i = Some (Inr h')"
  from CopyObjPosObj_subvalues_Suc_cases [OF run] obtain sz where sz: "SIZE_OBJ h b = Inr sz"
    and cases: "(\<not> i < sz div 8 \<and> h' = h) \<or>
     (i < sz div 8 \<and> (\<exists>v. get_slot h b i = Inr v \<and>
        ((v = Null \<and> CopyObjPosObj_subvalues L n h b c0 mut (i + 1) = Some (Inr h')) \<or>
         (v \<noteq> Null \<and> (\<exists>h1 tmp h2. COPY_OBJ L n h v mut = Some (Inr (h1, tmp)) \<and>
            set_slot h1 c0 i tmp = Inr h2 \<and>
            CopyObjPosObj_subvalues L n h2 b c0 mut (i + 1) = Some (Inr h'))))))"
    by blast
  have szx: "sz = size x" using m x sz by (rule marked_slots(1))
  from cases show "copy_step h0 h h' {c0} \<and> parented h0 h h' None"
  proof (elim disjE conjE exE)
    assume "h' = h"
    with inv show ?thesis by (simp add: copy_step_refl parented_refl)
  next
    fix v assume "CopyObjPosObj_subvalues L n h b c0 mut (i + 1) = Some (Inr h')"
    with IHp inv m x tx ge lt nf show ?thesis
      unfolding pos_ok_def by (metis le_add2)
  next
    fix v h1 tmp h2
    assume ir: "i < sz div 8" and gs: "get_slot h b i = Inr v" and vn: "v \<noteq> Null"
      and c: "COPY_OBJ L n h v mut = Some (Inr (h1, tmp))"
      and s: "set_slot h1 c0 i tmp = Inr h2"
      and l: "CopyObjPosObj_subvalues L n h2 b c0 mut (i + 1) = Some (Inr h')"
    from marked_slots(2) [OF m x gs i] have il: "i < length (slots x)" and v: "v = slots x ! i"
      by simp_all
    have cl: "closed_val (nextbag h0) v" unfolding v using ok x il by (rule heap_ok_closed)
    from IHc inv cl c have s1: "copy_step h0 h h1 {}" and p1: "parented h0 h h1 (Some v)"
      unfolding copy_ok_def by blast+
    have inv1: "copy_inv h0 h1" using s1 by (rule copy_step_inv)
    have nf1: "\<forall>b' c'. marked_as h0 h1 b' c' \<longrightarrow> Suc c' \<noteq> c0"
      using s1 inv nf lt by (rule nf_step)
    have p1': "parented h0 h h1 None"
    proof (cases "\<exists>w. v = Ref w")
      case True
      then obtain w where w: "v = Ref w" by blast
      have "child h0 b w"
        using x tx i ir il v w szx by (auto simp: child_def)
      with s1 inv m p1 show ?thesis unfolding w by (rule child_parent)
    next
      case False
      with p1 show ?thesis by (intro not_ref_parented) auto
    qed
    from set_slot_copy_step [OF inv1 ok s ge nf1]
    have s2: "copy_step h0 h1 h2 {c0}" and p2: "parented h0 h1 h2 None"
      and o2: "\<forall>b c. marked_as h0 h2 b c \<longrightarrow> marked_as h0 h1 b c"
      by blast+
    have inv2: "copy_inv h0 h2" using s2 by (rule copy_step_inv)
    have m2: "marked_as h0 h2 b cb"
      using s2 s1 m by (blast intro: copy_step_keep)
    have lt2: "c0 < nextbag h2"
      using lt copy_step_nextbag [OF s1] copy_step_nextbag [OF s2] by simp
    have nf2: "\<forall>b' c'. marked_as h0 h2 b' c' \<longrightarrow> Suc c' \<noteq> c0"
      using nf1 o2 by blast
    have i1: "1 \<le> i + 1" by simp
    from IHp inv2 m2 x tx ge lt2 nf2 i1 l
    have s3: "copy_step h0 h2 h' {c0}" and p3: "parented h0 h2 h' None"
      unfolding pos_ok_def by blast+
    have s12: "copy_step h0 h h2 {c0}"
      using copy_step_mono [OF s1] s2 by (rule copy_step_trans)
    have p12: "parented h0 h h2 None"
      using copy_step_mono [OF s1] s2 p1' p2 by (rule parented_trans)
    have "copy_step h0 h h' {c0}" using s12 s3 by (rule copy_step_trans)
    moreover have "parented h0 h h' None" using s12 s3 p12 p3 by (rule parented_trans)
    ultimately show ?thesis ..
  qed
qed

lemma LEN_PREC_Inr:
  assumes "LEN_PREC h b = Inr len"
  shows "get_slot h b 1 = Inr (Word len)"
proof -
  from assms obtain u where u: "get_slot h b 1 = Inr u" and "UINT u = Inr len"
    by (auto simp: LEN_PREC_def bindE_Inr)
  then have "u = Word len" by (cases u) (simp_all add: UINT_def)
  with u show ?thesis by simp
qed

lemma com_case:
  assumes ok: "heap_ok h0" and IHc: "copy_ok L h0 n" and IHp: "com_ok L h0 n"
  shows "com_ok L h0 (Suc n)"
  unfolding com_ok_def
proof (intro allI impI)
  fix h b cb c0 mut i h' x
  assume inv: "copy_inv h0 h" and m: "marked_as h0 h b cb" and x: "bags h0 b = Some x"
    and tx: "tnum x = T_COMOBJ" and ge: "nextbag h0 \<le> c0" and lt: "c0 < nextbag h"
    and nf: "\<forall>b' c'. marked_as h0 h b' c' \<longrightarrow> Suc c' \<noteq> c0" and i: "1 \<le> i"
    and run: "CopyObjComObj_subvalues L (Suc n) h b c0 mut i = Some (Inr h')"
  from CopyObjComObj_subvalues_Suc_cases [OF run] obtain len where len: "LEN_PREC h b = Inr len"
    and cases: "(\<not> i \<le> len \<and> h' = h) \<or>
     (i \<le> len \<and> (\<exists>rn ha v h1 tmp h2. GET_RNAM_PREC h b i = Inr rn \<and>
        SET_RNAM_PREC h c0 i rn = Inr ha \<and> GET_ELM_PREC ha b i = Inr v \<and>
        COPY_OBJ L n ha v mut = Some (Inr (h1, tmp)) \<and> SET_ELM_PREC h1 c0 i tmp = Inr h2 \<and>
        CopyObjComObj_subvalues L n h2 b c0 mut (i + 1) = Some (Inr h')))"
    by blast
  from marked_slots(2) [OF m x LEN_PREC_Inr [OF len]]
  have l1: "1 < length (slots x)" and w1: "slots x ! 1 = Word len" by simp_all
  from cases show "copy_step h0 h h' {c0} \<and> parented h0 h h' None"
  proof (elim disjE conjE exE)
    assume "h' = h"
    with inv show ?thesis by (simp add: copy_step_refl parented_refl)
  next
    fix rn ha v h1 tmp h2
    assume ir: "i \<le> len"
      and sr: "SET_RNAM_PREC h c0 i rn = Inr ha" and ge': "GET_ELM_PREC ha b i = Inr v"
      and c: "COPY_OBJ L n ha v mut = Some (Inr (h1, tmp))"
      and s: "SET_ELM_PREC h1 c0 i tmp = Inr h2"
      and l: "CopyObjComObj_subvalues L n h2 b c0 mut (i + 1) = Some (Inr h')"
    from sr have sr': "set_slot h c0 (2 * i) (Word rn) = Inr ha" by (simp add: SET_RNAM_PREC_def)
    from set_slot_copy_step [OF inv ok sr' ge nf]
    have sa: "copy_step h0 h ha {c0}" and pa: "parented h0 h ha None"
      and oa: "\<forall>b c. marked_as h0 ha b c \<longrightarrow> marked_as h0 h b c"
      by blast+
    have inva: "copy_inv h0 ha" using sa by (rule copy_step_inv)
    have ma: "marked_as h0 ha b cb" using sa m by (rule copy_step_keep)
    have lta: "c0 < nextbag ha" using lt copy_step_nextbag [OF sa] by simp
    have nfa: "\<forall>b' c'. marked_as h0 ha b' c' \<longrightarrow> Suc c' \<noteq> c0" using nf oa by blast
    from ge' have gs: "get_slot ha b (2 * i + 1) = Inr v" by (simp add: GET_ELM_PREC_def)
    have "1 \<le> 2 * i + 1" by simp
    from marked_slots(2) [OF ma x gs this]
    have il: "2 * i + 1 < length (slots x)" and v: "v = slots x ! (2 * i + 1)" by simp_all
    have cl: "closed_val (nextbag h0) v" unfolding v using ok x il by (rule heap_ok_closed)
    from IHc inva cl c have s1: "copy_step h0 ha h1 {}" and p1: "parented h0 ha h1 (Some v)"
      unfolding copy_ok_def by blast+
    have inv1: "copy_inv h0 h1" using s1 by (rule copy_step_inv)
    have nf1: "\<forall>b' c'. marked_as h0 h1 b' c' \<longrightarrow> Suc c' \<noteq> c0"
      using s1 inva nfa lta by (rule nf_step)
    have p1': "parented h0 ha h1 None"
    proof (cases "\<exists>w. v = Ref w")
      case True
      then obtain w where w: "v = Ref w" by blast
      have "child h0 b w"
        using x tx i ir il v w l1 w1 by (auto simp: child_def)
      with s1 inva ma p1 show ?thesis unfolding w by (rule child_parent)
    next
      case False
      with p1 show ?thesis by (intro not_ref_parented) auto
    qed
    from s have s': "set_slot h1 c0 (2 * i + 1) tmp = Inr h2" by (simp add: SET_ELM_PREC_def)
    from set_slot_copy_step [OF inv1 ok s' ge nf1]
    have s2: "copy_step h0 h1 h2 {c0}" and p2: "parented h0 h1 h2 None"
      and o2: "\<forall>b c. marked_as h0 h2 b c \<longrightarrow> marked_as h0 h1 b c"
      by blast+
    have inv2: "copy_inv h0 h2" using s2 by (rule copy_step_inv)
    have m2: "marked_as h0 h2 b cb"
      using s2 s1 ma by (blast intro: copy_step_keep)
    have lt2: "c0 < nextbag h2"
      using lta copy_step_nextbag [OF s1] copy_step_nextbag [OF s2] by simp
    have nf2: "\<forall>b' c'. marked_as h0 h2 b' c' \<longrightarrow> Suc c' \<noteq> c0"
      using nf1 o2 by blast
    have i1: "1 \<le> i + 1" by simp
    from IHp inv2 m2 x tx ge lt2 nf2 i1 l
    have s3: "copy_step h0 h2 h' {c0}" and p3: "parented h0 h2 h' None"
      unfolding com_ok_def by blast+
    have sa1: "copy_step h0 h h1 {c0}"
      using sa copy_step_mono [OF s1] by (rule copy_step_trans)
    have pa1: "parented h0 h h1 None"
      using sa copy_step_mono [OF s1] pa p1' by (rule parented_trans)
    have s12: "copy_step h0 h h2 {c0}"
      using sa1 s2 by (rule copy_step_trans)
    have p12: "parented h0 h h2 None"
      using sa1 s2 pa1 p2 by (rule parented_trans)
    have "copy_step h0 h h' {c0}" using s12 s3 by (rule copy_step_trans)
    moreover have "parented h0 h h' None" using s12 s3 p12 p3 by (rule parented_trans)
    ultimately show ?thesis ..
  qed
qed

lemma copy_words_copy_step:
  assumes ok: "heap_ok h0"
  shows "copy_inv h0 h \<Longrightarrow> copy_words h b c0 p k = Inr h' \<Longrightarrow> nextbag h0 \<le> c0 \<Longrightarrow>
    \<forall>b' c'. marked_as h0 h b' c' \<longrightarrow> Suc c' \<noteq> c0 \<Longrightarrow>
    copy_step h0 h h' {c0} \<and> parented h0 h h' None"
proof (induction k arbitrary: h p)
  case 0
  then show ?case by (simp add: copy_step_refl parented_refl)
next
  case (Suc k)
  from Suc.prems(2) obtain v h1 where s: "set_slot h c0 p v = Inr h1"
    and r: "copy_words h1 b c0 (Suc p) k = Inr h'"
    by (auto split: sum.splits)
  from set_slot_copy_step [OF Suc.prems(1) ok s Suc.prems(3,4)]
  have s1: "copy_step h0 h h1 {c0}" and p1: "parented h0 h h1 None"
    and o1: "\<forall>b c. marked_as h0 h1 b c \<longrightarrow> marked_as h0 h b c"
    by blast+
  have inv1: "copy_inv h0 h1" using s1 by (rule copy_step_inv)
  have nf1: "\<forall>b' c'. marked_as h0 h1 b' c' \<longrightarrow> Suc c' \<noteq> c0" using Suc.prems(4) o1 by blast
  from Suc.IH [OF inv1 r Suc.prems(3) nf1]
  have s2: "copy_step h0 h1 h' {c0}" and p2: "parented h0 h1 h' None" by blast+
  have "copy_step h0 h h' {c0}" using s1 s2 by (rule copy_step_trans)
  moreover have "parented h0 h h' None" using s1 s2 p1 p2 by (rule parented_trans)
  ultimately show ?case ..
qed

lemma unmarked_by_tag:
  assumes inv: "copy_inv h0 h" and lt: "b < nextbag h0"
    and t: "TNUM_OBJ h (Ref b) = Inr t" and le: "t \<le> LAST_REAL_TNUM"
  shows "bags h b = bags h0 b"
proof (rule ccontr)
  assume "bags h b \<noteq> bags h0 b"
  with copy_inv_cases [OF inv lt] obtain c where "marked_as h0 h b c" by blast
  then obtain x where "bags h b = Some (x\<lparr>tnum := tnum x + COPYING, slots := (slots x)[0 := Ref (Suc c)]\<rparr>)"
    and k: "tnum x = T_POSOBJ \<or> tnum x = T_COMOBJ \<or> tnum x = T_DATOBJ"
    by (cases "bags h0 b") (simp_all add: marked_as_def)
  with t have "t = tnum x + COPYING" by (simp add: TNUM_OBJ_def)
  with le k show False by (auto simp: tnum_defs)
qed

lemma started_pre:
  assumes inv: "copy_inv h0 h" and ok: "heap_ok h0" and cl: "closed_val (nextbag h0) obj"
    and bc: "begin_copy L h obj mut com = Inr (Started h1 b c)"
    and t: "TNUM_OBJ h obj = Inr t" and le: "t \<le> LAST_REAL_TNUM"
  shows "bags h b = bags h0 b" and "obj = Ref b"
proof -
  from inv have fresh: "\<forall>k. nextbag h \<le> k \<longrightarrow> bags h k = None" by (simp add: copy_inv_def)
  from begin_copy_Started [OF bc fresh] show o: "obj = Ref b" by blast
  with cl have "b < nextbag h0" by (simp add: closed_val_def)
  with inv show "bags h b = bags h0 b" using t le unfolding o by (rule unmarked_by_tag)
qed

lemma copy_case:
  assumes ok: "heap_ok h0" and IHp: "pos_ok L h0 n" and IHc: "com_ok L h0 n"
  shows "copy_ok L h0 (Suc n)"
  unfolding copy_ok_def
proof (intro allI impI)
  fix h obj mut h' r
  assume inv: "copy_inv h0 h" and cl: "closed_val (nextbag h0) obj"
    and run: "COPY_OBJ L (Suc n) h obj mut = Some (Inr (h', r))"
  from COPY_OBJ_Suc_cases [OF run]
  show "copy_step h0 h h' {} \<and> parented h0 h h' (Some obj)"
  proof (elim disjE exE conjE)
    assume "h' = h"
    with inv show ?thesis by (simp add: copy_step_refl parented_refl)
  next
    fix h1 b c
    assume t: "TNUM_OBJ h obj = Inr T_POSOBJ"
      and bc: "begin_copy L h obj mut False = Inr (Started h1 b c)"
      and l: "CopyObjPosObj_subvalues L n h1 b c mut 1 = Some (Inr h')"
    have le: "T_POSOBJ \<le> LAST_REAL_TNUM" by (simp add: tnum_defs)
    from started_pre [OF inv ok cl bc t le] have un: "bags h b = bags h0 b" by simp
    from begin_copy_step [OF inv ok bc un]
    have s1: "copy_step h0 h h1 {}" and m1: "marked_as h0 h1 b c" and c: "c = nextbag h"
      and p1: "parented h0 h h1 (Some obj)"
      and nf1: "\<forall>b' c'. marked_as h0 h1 b' c' \<longrightarrow> Suc c' \<noteq> c"
      and n1: "nextbag h1 = Suc (Suc c)"
      and x: "\<exists>x. bags h0 b = Some x \<and> tnum x = (case TNUM_OBJ h obj of Inr t \<Rightarrow> t | _ \<Rightarrow> 0)"
      by blast+
    from x t obtain x where x: "bags h0 b = Some x" "tnum x = T_POSOBJ" by auto
    have inv1: "copy_inv h0 h1" using s1 by (rule copy_step_inv)
    have ge: "nextbag h0 \<le> c" using inv c by (simp add: copy_inv_def)
    have lt: "c < nextbag h1" using n1 by simp
    from IHp inv1 m1 x ge lt nf1 l
    have s2: "copy_step h0 h1 h' {c}" and p2: "parented h0 h1 h' None"
      unfolding pos_ok_def by (metis le_refl)+
    have "copy_step h0 h h' {c}" using copy_step_mono [OF s1] s2 by (rule copy_step_trans)
    then have "copy_step h0 h h' {}" by (rule copy_step_drop) (simp add: c)
    moreover have "parented h0 h h' (Some obj)"
      using copy_step_mono [OF s1] s2 p1 p2 by (rule parented_trans)
    ultimately show ?thesis ..
  next
    fix h1 b c
    assume t: "TNUM_OBJ h obj = Inr T_COMOBJ"
      and bc: "begin_copy L h obj mut True = Inr (Started h1 b c)"
      and l: "CopyObjComObj_subvalues L n h1 b c mut 1 = Some (Inr h')"
    have le: "T_COMOBJ \<le> LAST_REAL_TNUM" by (simp add: tnum_defs)
    from started_pre [OF inv ok cl bc t le] have un: "bags h b = bags h0 b" by simp
    from begin_copy_step [OF inv ok bc un]
    have s1: "copy_step h0 h h1 {}" and m1: "marked_as h0 h1 b c" and c: "c = nextbag h"
      and p1: "parented h0 h h1 (Some obj)"
      and nf1: "\<forall>b' c'. marked_as h0 h1 b' c' \<longrightarrow> Suc c' \<noteq> c"
      and n1: "nextbag h1 = Suc (Suc c)"
      and x: "\<exists>x. bags h0 b = Some x \<and> tnum x = (case TNUM_OBJ h obj of Inr t \<Rightarrow> t | _ \<Rightarrow> 0)"
      by blast+
    from x t obtain x where x: "bags h0 b = Some x" "tnum x = T_COMOBJ" by auto
    have inv1: "copy_inv h0 h1" using s1 by (rule copy_step_inv)
    have ge: "nextbag h0 \<le> c" using inv c by (simp add: copy_inv_def)
    have lt: "c < nextbag h1" using n1 by simp
    from IHc inv1 m1 x ge lt nf1 l
    have s2: "copy_step h0 h1 h' {c}" and p2: "parented h0 h1 h' None"
      unfolding com_ok_def by (metis le_refl)+
    have "copy_step h0 h h' {c}" using copy_step_mono [OF s1] s2 by (rule copy_step_trans)
    then have "copy_step h0 h h' {}" by (rule copy_step_drop) (simp add: c)
    moreover have "parented h0 h h' (Some obj)"
      using copy_step_mono [OF s1] s2 p1 p2 by (rule parented_trans)
    ultimately show ?thesis ..
  next
    fix h1 b c k
    assume t: "TNUM_OBJ h obj = Inr T_DATOBJ"
      and bc: "begin_copy L h obj mut False = Inr (Started h1 b c)"
      and l: "copy_words h1 b c 1 k = Inr h'"
    have le: "T_DATOBJ \<le> LAST_REAL_TNUM" by (simp add: tnum_defs)
    from started_pre [OF inv ok cl bc t le] have un: "bags h b = bags h0 b" by simp
    from begin_copy_step [OF inv ok bc un]
    have s1: "copy_step h0 h h1 {}" and c: "c = nextbag h"
      and p1: "parented h0 h h1 (Some obj)"
      and nf1: "\<forall>b' c'. marked_as h0 h1 b' c' \<longrightarrow> Suc c' \<noteq> c"
      by blast+
    have inv1: "copy_inv h0 h1" using s1 by (rule copy_step_inv)
    have ge: "nextbag h0 \<le> c" using inv c by (simp add: copy_inv_def)
    from copy_words_copy_step [OF ok inv1 l ge nf1]
    have s2: "copy_step h0 h1 h' {c}" and p2: "parented h0 h1 h' None" by blast+
    have "copy_step h0 h h' {c}" using copy_step_mono [OF s1] s2 by (rule copy_step_trans)
    then have "copy_step h0 h h' {}" by (rule copy_step_drop) (simp add: c)
    moreover have "parented h0 h h' (Some obj)"
      using copy_step_mono [OF s1] s2 p1 p2 by (rule parented_trans)
    ultimately show ?thesis ..
  qed
qed

lemma copy_all_ok:
  assumes ok: "heap_ok h0"
  shows "copy_ok L h0 n \<and> pos_ok L h0 n \<and> com_ok L h0 n"
proof (induction n)
  case 0
  show ?case by (simp add: copy_ok_def pos_ok_def com_ok_def)
next
  case (Suc n)
  then show ?case using ok by (simp add: copy_case pos_case com_case)
qed

lemma CLEAN_OBJ_Suc_cases:
  assumes "CLEAN_OBJ (Suc n) h obj = Some (Inr h')"
  shows "(h' = h \<and> (\<exists>t. TNUM_OBJ h obj = Inr t \<and> t \<le> LAST_REAL_TNUM)) \<or>
    (\<exists>b h1. obj = Ref b \<and> TNUM_OBJ h obj = Inr (T_POSOBJ + COPYING) \<and>
        remove_forwarding_pointer h b = Inr h1 \<and>
        CleanObjPosObjCopy_subvalues n h1 b 1 = Some (Inr h')) \<or>
    (\<exists>b h1. obj = Ref b \<and> TNUM_OBJ h obj = Inr (T_COMOBJ + COPYING) \<and>
        remove_forwarding_pointer h b = Inr h1 \<and>
        CleanObjComObjCopy_subvalues n h1 b 1 = Some (Inr h')) \<or>
    (\<exists>b. obj = Ref b \<and> TNUM_OBJ h obj = Inr (T_DATOBJ + COPYING) \<and>
        remove_forwarding_pointer h b = Inr h')"
proof -
  from assms obtain t where t: "TNUM_OBJ h obj = Inr t"
    by (cases "TNUM_OBJ h obj") auto
  from assms t obtain f where f: "CleanObjFuncs t = Some f"
    by (cases "CleanObjFuncs t") auto
  have tags: "f = CleanObjPosObjCopy_fn \<Longrightarrow> t = T_POSOBJ + COPYING"
    "f = CleanObjComObjCopy_fn \<Longrightarrow> t = T_COMOBJ + COPYING"
    "f = CleanObjDatObjCopy_fn \<Longrightarrow> t = T_DATOBJ + COPYING"
    "f = CleanObjConstant_fn \<or> f = CleanObjPosObj_fn \<or> f = CleanObjComObj_fn \<or> f = CleanObjDatObj_fn
       \<Longrightarrow> t \<le> LAST_REAL_TNUM"
    using f by (auto simp: CleanObjFuncs_def tnum_defs split: if_splits)
  show ?thesis
  proof (cases f)
    case CleanObjPosObjCopy_fn
    with assms t f tags(1) show ?thesis
      by (auto split: sum.splits Obj.splits)
  next
    case CleanObjComObjCopy_fn
    with assms t f tags(2) show ?thesis
      by (auto split: sum.splits Obj.splits)
  next
    case CleanObjDatObjCopy_fn
    with assms t f tags(3) show ?thesis
      by (auto simp: CleanObjDatObjCopy_def split: sum.splits Obj.splits)
  next
    case CleanObjError_fn
    with assms t f show ?thesis by simp
  next
    case CleanObjConstant_fn
    with assms t f tags(4) show ?thesis by simp
  next
    case CleanObjPosObj_fn
    with assms t f tags(4) show ?thesis by simp
  next
    case CleanObjComObj_fn
    with assms t f tags(4) show ?thesis by simp
  next
    case CleanObjDatObj_fn
    with assms t f tags(4) show ?thesis by simp
  qed
qed

lemma CleanObjPosObjCopy_subvalues_Suc_cases:
  assumes "CleanObjPosObjCopy_subvalues (Suc n) h b i = Some (Inr h')"
  shows "\<exists>sz. SIZE_OBJ h b = Inr sz \<and>
    ((\<not> i < sz div 8 \<and> h' = h) \<or>
     (i < sz div 8 \<and> (\<exists>v. get_slot h b i = Inr v \<and>
        ((v = Null \<and> CleanObjPosObjCopy_subvalues n h b (i + 1) = Some (Inr h')) \<or>
         (v \<noteq> Null \<and> (\<exists>h1. CLEAN_OBJ n h v = Some (Inr h1) \<and>
            CleanObjPosObjCopy_subvalues n h1 b (i + 1) = Some (Inr h')))))))"
  using assms by (auto split: sum.splits option.splits if_splits)

lemma CleanObjComObjCopy_subvalues_Suc_cases:
  assumes "CleanObjComObjCopy_subvalues (Suc n) h b i = Some (Inr h')"
  shows "\<exists>len. LEN_PREC h b = Inr len \<and>
    ((\<not> i \<le> len \<and> h' = h) \<or>
     (i \<le> len \<and> (\<exists>v h1. GET_ELM_PREC h b i = Inr v \<and>
        CLEAN_OBJ n h v = Some (Inr h1) \<and>
        CleanObjComObjCopy_subvalues n h1 b (i + 1) = Some (Inr h'))))"
  using assms by (auto split: sum.splits option.splits if_splits)

lemma remove_forwarding_pointer_marked:
  assumes m: "marked_as h0 h b c" and r: "remove_forwarding_pointer h b = Inr h1"
  shows "nextbag h1 = nextbag h" and "\<And>k. bags h1 k = (if k = b then bags h0 b else bags h k)"
proof -
  from m obtain x f where x: "bags h0 b = Some x" and ne: "slots x \<noteq> []"
    and bx: "bags h b = Some (x\<lparr>tnum := tnum x + COPYING, slots := (slots x)[0 := Ref (Suc c)]\<rparr>)"
    and f: "bags h (Suc c) = Some f" and sf: "slots f = [IntObj 2, slots x ! 0, Ref c]"
    by (cases "bags h0 b"; cases "bags h (Suc c)") (simp_all add: marked_as_def)
  have e: "x\<lparr>tnum := tnum x, slots := slots x\<rparr> = x" by simp
  from r have "nextbag h1 = nextbag h \<and> (\<forall>k. bags h1 k = (if k = b then bags h0 b else bags h k))"
    using x ne bx f sf e
    by (auto simp: remove_forwarding_pointer_def bindE_def get_slot_def ELM_PLIST_def
        set_slot_def upd_bag_def TNUM_OBJ_def RetypeBag_def)
  then show "nextbag h1 = nextbag h" and "\<And>k. bags h1 k = (if k = b then bags h0 b else bags h k)"
    by simp_all
qed

lemma clean_step_refl: "copy_inv h0 h \<Longrightarrow> clean_step h0 h h E"
  by (auto simp: clean_step_def)

lemma clean_step_mono: "clean_step h0 h h' {} \<Longrightarrow> clean_step h0 h h' E"
  unfolding clean_step_def by blast

lemma clean_step_inv: "clean_step h0 h h' E \<Longrightarrow> copy_inv h0 h'"
  by (simp add: clean_step_def)

lemma restored_stays:
  assumes "clean_step h0 h h' E" and "bags h v = bags h0 v"
  shows "bags h' v = bags h0 v"
proof (cases "v < nextbag h0")
  case True
  with assms show ?thesis by (auto simp: clean_step_def)
next
  case False
  with assms show ?thesis by (simp add: clean_step_def)
qed

lemma clean_step_trans:
  assumes s1: "clean_step h0 h h1 E" and s2: "clean_step h0 h1 h2 E"
  shows "clean_step h0 h h2 E"
  unfolding clean_step_def
proof (intro conjI allI impI)
  show "copy_inv h0 h2" using s2 by (rule clean_step_inv)
  show "nextbag h2 = nextbag h" using s1 s2 by (simp add: clean_step_def)
  show "bags h2 k = bags h k" if "nextbag h0 \<le> k" for k
    using that s1 s2 by (simp add: clean_step_def)
  show "bags h2 b = bags h b \<or> bags h2 b = bags h0 b" if "b < nextbag h0" for b
  proof -
    from that s1 have "bags h1 b = bags h b \<or> bags h1 b = bags h0 b" by (simp add: clean_step_def)
    moreover from that s2 have "bags h2 b = bags h1 b \<or> bags h2 b = bags h0 b"
      by (simp add: clean_step_def)
    ultimately show ?thesis by auto
  qed
  show "bags h2 v = bags h0 v"
    if a: "w \<notin> E \<and> bags h w \<noteq> bags h0 w \<and> bags h2 w = bags h0 w \<and> child h0 w v" for w v
  proof (cases "bags h1 w = bags h0 w")
    case True
    with a s1 have "bags h1 v = bags h0 v" unfolding clean_step_def by blast
    with s2 show ?thesis by (rule restored_stays)
  next
    case False
    with a s2 show ?thesis unfolding clean_step_def by blast
  qed
qed

lemma clean_step_close:
  assumes s: "clean_step h0 h h' {b}" and c: "\<forall>v. child h0 b v \<longrightarrow> bags h' v = bags h0 v"
  shows "clean_step h0 h h' {}"
  unfolding clean_step_def
proof (intro conjI allI impI)
  show "bags h' v = bags h0 v"
    if a: "w \<notin> {} \<and> bags h w \<noteq> bags h0 w \<and> bags h' w = bags h0 w \<and> child h0 w v" for w v
  proof (cases "w = b")
    case True
    with a c show ?thesis by blast
  next
    case False
    with a s show ?thesis unfolding clean_step_def by blast
  qed
qed (use s in \<open>simp_all add: clean_step_def\<close>)

lemma remove_fwd_step:
  assumes inv: "copy_inv h0 h" and ok: "heap_ok h0" and m: "marked_as h0 h b c"
    and r: "remove_forwarding_pointer h b = Inr h1"
  shows "clean_step h0 h h1 {b}" and "bags h1 b = bags h0 b"
proof -
  note e = remove_forwarding_pointer_marked [OF m r]
  have lt: "b < nextbag h0" using ok m by (rule marked_as_original)
  show r1: "bags h1 b = bags h0 b" by (simp add: e)
  have keep: "marked_as h0 h1 b' c'" if m': "marked_as h0 h b' c'" and ne: "b' \<noteq> b" for b' c'
  proof -
    from m' have "nextbag h0 \<le> c'" by (cases "bags h0 b'") (simp_all add: marked_as_def)
    with lt have "Suc c' \<noteq> b" by simp
    then have "bags h1 (Suc c') = bags h (Suc c')" by (simp add: e)
    moreover from ne have "bags h1 b' = bags h b'" by (simp add: e)
    ultimately have "marked_as h0 h1 b' c' = marked_as h0 h b' c'" by (intro marked_as_cong)
    with m' show ?thesis by simp
  qed
  have inv1: "copy_inv h0 h1"
    unfolding copy_inv_def
  proof (intro conjI allI impI)
    show "nextbag h0 \<le> nextbag h1" using inv e(1) by (simp add: copy_inv_def)
    show "bags h1 k = None" if "nextbag h1 \<le> k" for k
    proof -
      from that inv e(1) lt have "k \<noteq> b" by (auto simp: copy_inv_def)
      with that inv show ?thesis by (simp add: e copy_inv_def)
    qed
    show "bags h1 b' = bags h0 b' \<or> (\<exists>c. marked_as h0 h1 b' c)" if "b' < nextbag h0" for b'
    proof (cases "b' = b")
      case True
      with r1 show ?thesis by simp
    next
      case False
      then have "bags h1 b' = bags h b'" by (simp add: e)
      with copy_inv_cases [OF inv that] keep False show ?thesis by auto
    qed
    show "tnum z \<le> LAST_REAL_TNUM" if "nextbag h0 \<le> k" "bags h1 k = Some z" for k z
    proof -
      from that lt have "k \<noteq> b" by simp
      with that inv show ?thesis by (auto simp: e copy_inv_def)
    qed
  qed
  show "clean_step h0 h h1 {b}"
    unfolding clean_step_def
  proof (intro conjI allI impI)
    show "copy_inv h0 h1" by (rule inv1)
    show "nextbag h1 = nextbag h" by (rule e(1))
    show "bags h1 k = bags h k" if "nextbag h0 \<le> k" for k
      using that lt by (simp add: e)
    show "bags h1 b' = bags h b' \<or> bags h1 b' = bags h0 b'" for b'
      by (simp add: e)
    show "bags h1 v = bags h0 v"
      if "w \<notin> {b} \<and> bags h w \<noteq> bags h0 w \<and> bags h1 w = bags h0 w \<and> child h0 w v" for w v
      using that by (auto simp: e)
  qed
qed

lemma cpos_case:
  assumes ok: "heap_ok h0" and IHc: "clean_ok h0 n" and IHp: "cpos_ok h0 n"
  shows "cpos_ok h0 (Suc n)"
  unfolding cpos_ok_def
proof (intro allI impI)
  fix h b i h' x
  assume inv: "copy_inv h0 h" and r: "bags h b = bags h0 b" and x: "bags h0 b = Some x"
    and i: "1 \<le> i" and run: "CleanObjPosObjCopy_subvalues (Suc n) h b i = Some (Inr h')"
  from r x have hx: "bags h b = Some x" by simp
  from CleanObjPosObjCopy_subvalues_Suc_cases [OF run] obtain sz where sz: "SIZE_OBJ h b = Inr sz"
    and cases: "(\<not> i < sz div 8 \<and> h' = h) \<or>
     (i < sz div 8 \<and> (\<exists>v. get_slot h b i = Inr v \<and>
        ((v = Null \<and> CleanObjPosObjCopy_subvalues n h b (i + 1) = Some (Inr h')) \<or>
         (v \<noteq> Null \<and> (\<exists>h1. CLEAN_OBJ n h v = Some (Inr h1) \<and>
            CleanObjPosObjCopy_subvalues n h1 b (i + 1) = Some (Inr h'))))))"
    by blast
  from sz hx have szx: "sz = size x" by (simp add: SIZE_OBJ_def)
  let ?goal = "clean_step h0 h h' {} \<and>
        (\<forall>j v. i \<le> j \<and> j < size x div 8 \<and> j < length (slots x) \<and> slots x ! j = Ref v \<longrightarrow>
           bags h' v = bags h0 v)"
  from cases show ?goal
  proof (elim disjE conjE exE)
    assume "\<not> i < sz div 8" "h' = h"
    with inv szx show ?goal by (auto simp: clean_step_refl)
  next
    fix v assume gs: "get_slot h b i = Inr v" and vn: "v = Null"
      and l: "CleanObjPosObjCopy_subvalues n h b (i + 1) = Some (Inr h')"
    from get_slot_Inr [OF gs] hx have v: "v = slots x ! i" by auto
    from IHp inv r x l have s: "clean_step h0 h h' {}"
      and c: "\<forall>j v. i + 1 \<le> j \<and> j < size x div 8 \<and> j < length (slots x) \<and> slots x ! j = Ref v \<longrightarrow>
           bags h' v = bags h0 v"
      unfolding cpos_ok_def by (metis le_add2)+
    have "bags h' w = bags h0 w"
      if "i \<le> j \<and> j < size x div 8 \<and> j < length (slots x) \<and> slots x ! j = Ref w" for j w
    proof (cases "j = i")
      case True
      with that v vn show ?thesis by simp
    next
      case False
      with that have "i + 1 \<le> j" by simp
      with that c show ?thesis by blast
    qed
    with s show ?goal by blast
  next
    fix v h1 assume gs: "get_slot h b i = Inr v" and vn: "v \<noteq> Null"
      and c: "CLEAN_OBJ n h v = Some (Inr h1)"
      and l: "CleanObjPosObjCopy_subvalues n h1 b (i + 1) = Some (Inr h')"
    from get_slot_Inr [OF gs] hx have il: "i < length (slots x)" and v: "v = slots x ! i" by auto
    have cl: "closed_val (nextbag h0) v" unfolding v using ok x il by (rule heap_ok_closed)
    from IHc inv cl c have s1: "clean_step h0 h h1 {}"
      and r1: "\<forall>w. v = Ref w \<longrightarrow> bags h1 w = bags h0 w"
      unfolding clean_ok_def by blast+
    have inv1: "copy_inv h0 h1" using s1 by (rule clean_step_inv)
    have rb1: "bags h1 b = bags h0 b" using s1 r by (rule restored_stays)
    from IHp inv1 rb1 x l have s2: "clean_step h0 h1 h' {}"
      and c2: "\<forall>j v. i + 1 \<le> j \<and> j < size x div 8 \<and> j < length (slots x) \<and> slots x ! j = Ref v \<longrightarrow>
           bags h' v = bags h0 v"
      unfolding cpos_ok_def by (metis le_add2)+
    have s: "clean_step h0 h h' {}" using s1 s2 by (rule clean_step_trans)
    have "bags h' w = bags h0 w"
      if "i \<le> j \<and> j < size x div 8 \<and> j < length (slots x) \<and> slots x ! j = Ref w" for j w
    proof (cases "j = i")
      case True
      with that v r1 have "bags h1 w = bags h0 w" by simp
      with s2 show ?thesis by (rule restored_stays)
    next
      case False
      with that have "i + 1 \<le> j" by simp
      with that c2 show ?thesis by blast
    qed
    with s show ?goal by blast
  qed
qed

lemma ccom_case:
  assumes ok: "heap_ok h0" and IHc: "clean_ok h0 n" and IHp: "ccom_ok h0 n"
  shows "ccom_ok h0 (Suc n)"
  unfolding ccom_ok_def
proof (intro allI impI)
  fix h b i h' x
  assume inv: "copy_inv h0 h" and r: "bags h b = bags h0 b" and x: "bags h0 b = Some x"
    and i: "1 \<le> i" and run: "CleanObjComObjCopy_subvalues (Suc n) h b i = Some (Inr h')"
  from r x have hx: "bags h b = Some x" by simp
  from CleanObjComObjCopy_subvalues_Suc_cases [OF run] obtain len where len: "LEN_PREC h b = Inr len"
    and cases: "(\<not> i \<le> len \<and> h' = h) \<or>
     (i \<le> len \<and> (\<exists>v h1. GET_ELM_PREC h b i = Inr v \<and>
        CLEAN_OBJ n h v = Some (Inr h1) \<and>
        CleanObjComObjCopy_subvalues n h1 b (i + 1) = Some (Inr h')))"
    by blast
  from get_slot_Inr [OF LEN_PREC_Inr [OF len]] hx have w1: "slots x ! 1 = Word len" by auto
  let ?goal = "clean_step h0 h h' {} \<and>
        (\<forall>j v len. 1 < length (slots x) \<and> slots x ! 1 = Word len \<and> i \<le> j \<and> j \<le> len \<and>
           2 * j + 1 < length (slots x) \<and> slots x ! (2 * j + 1) = Ref v \<longrightarrow>
           bags h' v = bags h0 v)"
  from cases show ?goal
  proof (elim disjE conjE exE)
    assume "\<not> i \<le> len" "h' = h"
    with inv w1 show ?goal by (auto simp: clean_step_refl)
  next
    fix v h1 assume ge: "GET_ELM_PREC h b i = Inr v"
      and c: "CLEAN_OBJ n h v = Some (Inr h1)"
      and l: "CleanObjComObjCopy_subvalues n h1 b (i + 1) = Some (Inr h')"
    from ge have gs: "get_slot h b (2 * i + 1) = Inr v" by (simp add: GET_ELM_PREC_def)
    from get_slot_Inr [OF gs] hx have il: "2 * i + 1 < length (slots x)"
      and v: "v = slots x ! (2 * i + 1)" by auto
    have cl: "closed_val (nextbag h0) v" unfolding v using ok x il by (rule heap_ok_closed)
    from IHc inv cl c have s1: "clean_step h0 h h1 {}"
      and r1: "\<forall>w. v = Ref w \<longrightarrow> bags h1 w = bags h0 w"
      unfolding clean_ok_def by blast+
    have inv1: "copy_inv h0 h1" using s1 by (rule clean_step_inv)
    have rb1: "bags h1 b = bags h0 b" using s1 r by (rule restored_stays)
    from IHp inv1 rb1 x l have s2: "clean_step h0 h1 h' {}"
      and c2: "\<forall>j v len. 1 < length (slots x) \<and> slots x ! 1 = Word len \<and> i + 1 \<le> j \<and> j \<le> len \<and>
           2 * j + 1 < length (slots x) \<and> slots x ! (2 * j + 1) = Ref v \<longrightarrow>
           bags h' v = bags h0 v"
      unfolding ccom_ok_def by (metis le_add2)+
    have s: "clean_step h0 h h' {}" using s1 s2 by (rule clean_step_trans)
    have "bags h' w = bags h0 w"
      if "1 < length (slots x) \<and> slots x ! 1 = Word len' \<and> i \<le> j \<and> j \<le> len' \<and>
           2 * j + 1 < length (slots x) \<and> slots x ! (2 * j + 1) = Ref w" for j w len'
    proof (cases "j = i")
      case True
      with that v r1 have "bags h1 w = bags h0 w" by simp
      with s2 show ?thesis by (rule restored_stays)
    next
      case False
      with that have "i + 1 \<le> j" by simp
      with that c2 show ?thesis by blast
    qed
    with s show ?goal by blast
  qed
qed

lemma marked_by_tag:
  assumes inv: "copy_inv h0 h" and ok: "heap_ok h0" and lt: "b < nextbag h0"
    and t: "TNUM_OBJ h (Ref b) = Inr (k + COPYING)"
    and k: "k = T_POSOBJ \<or> k = T_COMOBJ \<or> k = T_DATOBJ"
  shows "\<exists>c x. marked_as h0 h b c \<and> bags h0 b = Some x \<and> tnum x = k"
proof -
  have "bags h b \<noteq> bags h0 b"
  proof
    assume e: "bags h b = bags h0 b"
    with t obtain x where "bags h0 b = Some x" "tnum x = k + COPYING"
      by (cases "bags h0 b") (auto simp: TNUM_OBJ_def)
    with ok have "k + COPYING \<le> LAST_REAL_TNUM" unfolding heap_ok_def by metis
    with k show False by (auto simp: tnum_defs)
  qed
  with copy_inv_cases [OF inv lt] obtain c where m: "marked_as h0 h b c" by blast
  then obtain x where x: "bags h0 b = Some x"
    and bx: "bags h b = Some (x\<lparr>tnum := tnum x + COPYING, slots := (slots x)[0 := Ref (Suc c)]\<rparr>)"
    by (cases "bags h0 b") (simp_all add: marked_as_def)
  with t have "tnum x = k" by (simp add: TNUM_OBJ_def)
  with m x show ?thesis by blast
qed

lemma clean_case:
  assumes ok: "heap_ok h0" and IHp: "cpos_ok h0 n" and IHc: "ccom_ok h0 n"
  shows "clean_ok h0 (Suc n)"
  unfolding clean_ok_def
proof (intro allI impI)
  fix h obj h'
  assume inv: "copy_inv h0 h" and cl: "closed_val (nextbag h0) obj"
    and run: "CLEAN_OBJ (Suc n) h obj = Some (Inr h')"
  let ?goal = "clean_step h0 h h' {} \<and> (\<forall>b. obj = Ref b \<longrightarrow> bags h' b = bags h0 b)"
  from CLEAN_OBJ_Suc_cases [OF run] show ?goal
  proof (elim disjE exE conjE)
    fix t assume e: "h' = h" and t: "TNUM_OBJ h obj = Inr t" and le: "t \<le> LAST_REAL_TNUM"
    have "bags h b = bags h0 b" if "obj = Ref b" for b
      using inv cl t le that by (intro unmarked_by_tag [where t = t]) (simp_all add: closed_val_def)
    with inv e show ?goal by (simp add: clean_step_refl)
  next
    fix b h1
    assume o: "obj = Ref b" and t: "TNUM_OBJ h obj = Inr (T_POSOBJ + COPYING)"
      and r: "remove_forwarding_pointer h b = Inr h1"
      and l: "CleanObjPosObjCopy_subvalues n h1 b 1 = Some (Inr h')"
    from cl o have lt: "b < nextbag h0" by (simp add: closed_val_def)
    from marked_by_tag [OF inv ok lt t [unfolded o]] obtain c x where m: "marked_as h0 h b c"
      and x: "bags h0 b = Some x" and tx: "tnum x = T_POSOBJ" by auto
    from remove_fwd_step [OF inv ok m r] have s1: "clean_step h0 h h1 {b}"
      and r1: "bags h1 b = bags h0 b" by blast+
    have inv1: "copy_inv h0 h1" using s1 by (rule clean_step_inv)
    from IHp inv1 r1 x l have s2: "clean_step h0 h1 h' {}"
      and c2: "\<forall>j v. 1 \<le> j \<and> j < size x div 8 \<and> j < length (slots x) \<and> slots x ! j = Ref v \<longrightarrow>
           bags h' v = bags h0 v"
      unfolding cpos_ok_def by (metis le_refl)+
    have s: "clean_step h0 h h' {b}" using s1 clean_step_mono [OF s2] by (rule clean_step_trans)
    have "\<forall>v. child h0 b v \<longrightarrow> bags h' v = bags h0 v"
      using x tx c2 by (auto simp: child_def tnum_defs)
    with s have "clean_step h0 h h' {}" by (rule clean_step_close)
    moreover have "bags h' b = bags h0 b" using s2 r1 by (rule restored_stays)
    ultimately show ?goal using o by simp
  next
    fix b h1
    assume o: "obj = Ref b" and t: "TNUM_OBJ h obj = Inr (T_COMOBJ + COPYING)"
      and r: "remove_forwarding_pointer h b = Inr h1"
      and l: "CleanObjComObjCopy_subvalues n h1 b 1 = Some (Inr h')"
    from cl o have lt: "b < nextbag h0" by (simp add: closed_val_def)
    from marked_by_tag [OF inv ok lt t [unfolded o]] obtain c x where m: "marked_as h0 h b c"
      and x: "bags h0 b = Some x" and tx: "tnum x = T_COMOBJ" by auto
    from remove_fwd_step [OF inv ok m r] have s1: "clean_step h0 h h1 {b}"
      and r1: "bags h1 b = bags h0 b" by blast+
    have inv1: "copy_inv h0 h1" using s1 by (rule clean_step_inv)
    from IHc inv1 r1 x l have s2: "clean_step h0 h1 h' {}"
      and c2: "\<forall>j v len. 1 < length (slots x) \<and> slots x ! 1 = Word len \<and> 1 \<le> j \<and> j \<le> len \<and>
           2 * j + 1 < length (slots x) \<and> slots x ! (2 * j + 1) = Ref v \<longrightarrow>
           bags h' v = bags h0 v"
      unfolding ccom_ok_def by (metis le_refl)+
    have s: "clean_step h0 h h' {b}" using s1 clean_step_mono [OF s2] by (rule clean_step_trans)
    have "\<forall>v. child h0 b v \<longrightarrow> bags h' v = bags h0 v"
      using x tx c2 by (auto simp: child_def tnum_defs)
    with s have "clean_step h0 h h' {}" by (rule clean_step_close)
    moreover have "bags h' b = bags h0 b" using s2 r1 by (rule restored_stays)
    ultimately show ?goal using o by simp
  next
    fix b
    assume o: "obj = Ref b" and t: "TNUM_OBJ h obj = Inr (T_DATOBJ + COPYING)"
      and r: "remove_forwarding_pointer h b = Inr h'"
    from cl o have lt: "b < nextbag h0" by (simp add: closed_val_def)
    from marked_by_tag [OF inv ok lt t [unfolded o]] obtain c x where m: "marked_as h0 h b c"
      and x: "bags h0 b = Some x" and tx: "tnum x = T_DATOBJ" by auto
    from remove_fwd_step [OF inv ok m r] have s: "clean_step h0 h h' {b}"
      and r1: "bags h' b = bags h0 b" by blast+
    have "\<forall>v. child h0 b v \<longrightarrow> bags h' v = bags h0 v"
      using x tx by (auto simp: child_def tnum_defs)
    with s have "clean_step h0 h h' {}" by (rule clean_step_close)
    with r1 o show ?goal by simp
  qed
qed

lemma clean_all_ok:
  assumes ok: "heap_ok h0"
  shows "clean_ok h0 n \<and> cpos_ok h0 n \<and> ccom_ok h0 n"
proof (induction n)
  case 0
  show ?case by (simp add: clean_ok_def cpos_ok_def ccom_ok_def)
next
  case (Suc n)
  then show ?case using ok by (simp add: clean_case cpos_case ccom_case)
qed

lemma heap_ok_copiedObjs: "heap_ok (h\<lparr>copiedObjs := v\<rparr>) = heap_ok h"
  by (simp add: heap_ok_def)

lemma copy_inv_refl: "heap_ok h \<Longrightarrow> copy_inv h h"
  by (simp add: copy_inv_def heap_ok_def)

lemma copy_clean_restores:
  assumes ok: "heap_ok h0" and cl: "closed_val (nextbag h0) obj"
    and c: "COPY_OBJ L n h0 obj mut = Some (Inr (h1, new))"
    and k: "CLEAN_OBJ m h1 obj = Some (Inr h2)"
  shows "\<forall>b. b < nextbag h0 \<longrightarrow> bags h2 b = bags h0 b"
    and "\<forall>b x. bags h2 b = Some x \<longrightarrow> tnum x \<le> LAST_REAL_TNUM"
proof -
  have inv0: "copy_inv h0 h0" using ok by (rule copy_inv_refl)
  from copy_all_ok [OF ok, of L n] inv0 cl c
  have s1: "copy_step h0 h0 h1 {}" and p1: "parented h0 h0 h1 (Some obj)"
    unfolding copy_ok_def by blast+
  have inv1: "copy_inv h0 h1" using s1 by (rule copy_step_inv)
  from clean_all_ok [OF ok, of m] inv1 cl k
  have s2: "clean_step h0 h1 h2 {}" and r2: "\<forall>b. obj = Ref b \<longrightarrow> bags h2 b = bags h0 b"
    unfolding clean_ok_def by blast+
  have inv2: "copy_inv h0 h2" using s2 by (rule clean_step_inv)
  have P: "\<forall>w. marked_as h0 h1 w c \<longrightarrow> bags h2 w = bags h0 w" for c
  proof (induction c rule: less_induct)
    case (less c)
    show ?case
    proof (intro allI impI)
      fix w assume m: "marked_as h0 h1 w c"
      then have "nextbag h0 \<le> c" by (cases "bags h0 w") (simp_all add: marked_as_def)
      with p1 m have "Some obj = Some (Ref w) \<or>
          (\<exists>w' c'. marked_as h0 h1 w' c' \<and> c' < c \<and> child h0 w' w)"
        unfolding parented_def by blast
      then show "bags h2 w = bags h0 w"
      proof
        assume "Some obj = Some (Ref w)"
        with r2 show ?thesis by simp
      next
        assume "\<exists>w' c'. marked_as h0 h1 w' c' \<and> c' < c \<and> child h0 w' w"
        then obtain w' c' where m': "marked_as h0 h1 w' c'" and lt: "c' < c"
          and ch: "child h0 w' w" by blast
        from less.IH [OF lt] m' have "bags h2 w' = bags h0 w'" by blast
        moreover have "bags h1 w' \<noteq> bags h0 w'" using m' by (rule marked_not_same)
        ultimately show ?thesis using s2 ch unfolding clean_step_def by blast
      qed
    qed
  qed
  show all: "\<forall>b. b < nextbag h0 \<longrightarrow> bags h2 b = bags h0 b"
  proof (intro allI impI, rule ccontr)
    fix b assume lt: "b < nextbag h0" and ne: "bags h2 b \<noteq> bags h0 b"
    with copy_inv_cases [OF inv2 lt] obtain c where m2: "marked_as h0 h2 b c" by blast
    from s2 lt ne have e: "bags h2 b = bags h1 b" unfolding clean_step_def by blast
    from m2 have "nextbag h0 \<le> Suc c" by (cases "bags h0 b") (simp_all add: marked_as_def)
    with s2 have "bags h2 (Suc c) = bags h1 (Suc c)" unfolding clean_step_def by blast
    with e have "marked_as h0 h2 b c = marked_as h0 h1 b c" by (rule marked_as_cong)
    with m2 P have "bags h2 b = bags h0 b" by blast
    with ne show False by simp
  qed
  show "\<forall>b x. bags h2 b = Some x \<longrightarrow> tnum x \<le> LAST_REAL_TNUM"
  proof (intro allI impI)
    fix b x assume bx: "bags h2 b = Some x"
    show "tnum x \<le> LAST_REAL_TNUM"
    proof (cases "b < nextbag h0")
      case True
      with all bx have "bags h0 b = Some x" by simp
      with ok show ?thesis unfolding heap_ok_def by blast
    next
      case False
      with inv2 bx show ?thesis unfolding copy_inv_def by (metis not_le)
    qed
  qed
qed

text \<open>
  C1: let the heap be in order and \<open>obj\<close> a handle of it. When \<open>CopyObj\<close> returns, every
  bag that existed before the call is exactly as it was (tag, size and all words, so
  every first word is restored and every forwarding pointer gone), no bag at all, old or
  new, carries a tag with the \<open>COPYING\<close> offset, and \<open>copiedObjs\<close> is empty; it is also
  reset at the start: the call does not depend on what it held.
\<close>

theorem CopyObj_restores:
  assumes "heap_ok h" and "closed_val (nextbag h) obj"
    and "CopyObj L n h obj mut = Some (Inr (h', new))"
  shows "(\<forall>b. b < nextbag h \<longrightarrow> bags h' b = bags h b) \<and>
    (\<forall>b x. bags h' b = Some x \<longrightarrow> tnum x \<le> LAST_REAL_TNUM) \<and>
    copiedObjs h' = Null \<and>
    CopyObj L n (h\<lparr>copiedObjs := v\<rparr>) obj mut = CopyObj L n h obj mut"
proof -
  let ?h0 = "h\<lparr>copiedObjs := Null\<rparr>"
  from assms(3) obtain h1 h2 where c: "COPY_OBJ L n ?h0 obj mut = Some (Inr (h1, new))"
    and k: "CLEAN_OBJ n h1 obj = Some (Inr h2)" and h': "h' = h2\<lparr>copiedObjs := Null\<rparr>"
    by (auto simp: CopyObj_def split: option.splits sum.splits)
  have ok: "heap_ok ?h0" using assms(1) by (simp add: heap_ok_copiedObjs)
  have cl: "closed_val (nextbag ?h0) obj" using assms(2) by simp
  from copy_clean_restores [OF ok cl c k] h'
  have "(\<forall>b. b < nextbag h \<longrightarrow> bags h' b = bags h b) \<and>
    (\<forall>b x. bags h' b = Some x \<longrightarrow> tnum x \<le> LAST_REAL_TNUM)"
    by simp
  moreover have "copiedObjs h' = Null" using h' by simp
  moreover have "CopyObj L n (h\<lparr>copiedObjs := v\<rparr>) obj mut = CopyObj L n h obj mut"
    by (simp add: CopyObj_def)
  ultimately show ?thesis by blast
qed

text \<open>
  C1 on \<open>heap0\<close>, where the object copied holds another one twice and itself once: the
  call returns and the four bags are as before.
\<close>

theorem CopyObj_restores_witness:
  "heap_ok heap0 \<and> closed_val (nextbag heap0) (Ref 0) \<and>
   (\<exists>h' new. CopyObj lib0 8 heap0 (Ref 0) True = Some (Inr (h', new)) \<and>
      bags h' 0 = bags heap0 0 \<and> bags h' 1 = bags heap0 1 \<and> bags h' 2 = bags heap0 2 \<and>
      bags h' 3 = bags heap0 3 \<and> copiedObjs h' = Null)"
proof -
  have ok: "heap_ok heap0"
    by (auto simp: heap_ok_def heap0_def closed_val_def tnum_defs split: if_splits)
  have cl: "closed_val (nextbag heap0) (Ref 0)"
    by (simp add: closed_val_def heap0_def)
  have "(case CopyObj lib0 8 heap0 (Ref 0) True of Some (Inr (h', new)) \<Rightarrow> True | _ \<Rightarrow> False)"
    by code_simp
  then obtain h' new where run: "CopyObj lib0 8 heap0 (Ref 0) True = Some (Inr (h', new))"
    by (auto split: option.splits sum.splits)
  have n: "nextbag heap0 = 4" by (simp add: heap0_def)
  from CopyObj_restores [OF ok cl run, of Null]
  have "bags h' 0 = bags heap0 0 \<and> bags h' 1 = bags heap0 1 \<and> bags h' 2 = bags heap0 2 \<and>
      bags h' 3 = bags heap0 3 \<and> copiedObjs h' = Null"
    by (simp add: n)
  with ok cl run show ?thesis by blast
qed

section \<open>Sharing in a deep copy: what is proved\<close>

lemma marked_asD:
  assumes "marked_as h0 h b c"
  obtains x f where "bags h0 b = Some x" and "slots x \<noteq> []"
    and "tnum x = T_POSOBJ \<or> tnum x = T_COMOBJ \<or> tnum x = T_DATOBJ" and "nextbag h0 \<le> c"
    and "bags h b = Some (x\<lparr>tnum := tnum x + COPYING, slots := (slots x)[0 := Ref (Suc c)]\<rparr>)"
    and "bags h (Suc c) = Some f" and "slots f = [IntObj 2, slots x ! 0, Ref c]"
  using assms by (cases "bags h0 b"; cases "bags h (Suc c)") (simp_all add: marked_as_def)

lemma CopyObjPosObjCopy_marked:
  assumes "marked_as h0 h b c"
  shows "CopyObjPosObjCopy h (Ref b) = Inr (h, Ref c)"
  using assms
  by (elim marked_asD) (simp add: CopyObjPosObjCopy_def bindE_def get_slot_def ELM_PLIST_def)

lemma TNUM_marked:
  assumes "marked_as h0 h b c"
  shows "\<exists>k. TNUM_OBJ h (Ref b) = Inr (k + COPYING) \<and> (k = T_POSOBJ \<or> k = T_COMOBJ \<or> k = T_DATOBJ)"
  using assms by (elim marked_asD) (auto simp: TNUM_OBJ_def)

lemma fwd_marked:
  assumes "marked_as h0 h b c"
  shows "fwd h (Ref b) = Ref c"
proof -
  from TNUM_marked [OF assms] obtain k where "TNUM_OBJ h (Ref b) = Inr (k + COPYING)"
    and "k = T_POSOBJ \<or> k = T_COMOBJ \<or> k = T_DATOBJ" by blast
  moreover then have "LAST_REAL_TNUM < k + COPYING" by (auto simp: tnum_defs)
  ultimately show ?thesis
    by (simp add: fwd_def CopyObjPosObjCopy_marked [OF assms])
qed

lemma fwd_real: "TNUM_OBJ h v = Inr t \<Longrightarrow> t \<le> LAST_REAL_TNUM \<Longrightarrow> fwd h v = v"
  by (simp add: fwd_def)

lemma fwd_unmarked:
  assumes inv: "copy_inv h0 h" and ok: "heap_ok h0" and un: "\<forall>c. \<not> marked_as h0 h w c"
  shows "fwd h (Ref w) = Ref w"
proof (cases "bags h w")
  case None
  then show ?thesis by (simp add: fwd_def TNUM_OBJ_def)
next
  case (Some z)
  have "tnum z \<le> LAST_REAL_TNUM"
  proof (cases "w < nextbag h0")
    case True
    with copy_inv_cases [OF inv True] un have "bags h0 w = Some z" using Some by simp
    with ok show ?thesis unfolding heap_ok_def by blast
  next
    case False
    with inv Some show ?thesis unfolding copy_inv_def by (metis not_le)
  qed
  with Some show ?thesis by (intro fwd_real [where t = "tnum z"]) (simp_all add: TNUM_OBJ_def)
qed

lemma COPY_OBJ_marked:
  assumes "marked_as h0 h b c"
  shows "COPY_OBJ L (Suc n) h (Ref b) mut = Some (Inr (h, Ref c))"
proof -
  from TNUM_marked [OF assms] obtain k where t: "TNUM_OBJ h (Ref b) = Inr (k + COPYING)"
    and k: "k = T_POSOBJ \<or> k = T_COMOBJ \<or> k = T_DATOBJ" by blast
  from k show ?thesis
    using t CopyObjPosObjCopy_marked [OF assms]
    by (auto simp: CopyObjFuncs_def tnum_defs)
qed

lemma IS_MUTABLE_OBJ_same:
  assumes "\<forall>b. v = Ref b \<longrightarrow> bags h b = bags h0 b"
  shows "IS_MUTABLE_OBJ L h v = IS_MUTABLE_OBJ L h0 v"
proof -
  have t: "TNUM_OBJ h v = TNUM_OBJ h0 v" using assms by (cases v) (simp_all add: TNUM_OBJ_def)
  have g: "\<And>b. v = Ref b \<Longrightarrow> get_slot h b 0 = get_slot h0 b 0"
    using assms by (simp add: get_slot_def)
  have "TYPE_OBJ h v = TYPE_OBJ h0 v" using t g
    by (cases v) (simp_all add: TYPE_OBJ_def cong: if_cong)
  with t show ?thesis by (simp add: IS_MUTABLE_OBJ_def cong: if_cong)
qed

lemma fwd_nonref: "\<forall>w. v \<noteq> Ref w \<Longrightarrow> fwd h v = v"
  by (cases v) (simp_all add: fwd_def TNUM_OBJ_def tnum_defs)

lemma mut_marks_unmarked:
  assumes "mut_marks L h0 h" and "IS_MUTABLE_OBJ L h0 (Ref w) = Inr False"
  shows "\<not> marked_as h0 h w c"
  using assms unfolding mut_marks_def by fastforce

lemma mut_marks_back:
  assumes "copy_step h0 h h' S" and "mut_marks L h0 h'"
  shows "mut_marks L h0 h"
  using assms unfolding mut_marks_def copy_step_def by blast

lemma fwd_stable:
  assumes d: "val_done L h0 h v" and s: "copy_step h0 h h' S" and inv: "copy_inv h0 h"
    and mm: "mut_marks L h0 h'" and ok: "heap_ok h0"
  shows "fwd h' v = fwd h v"
proof -
  have inv': "copy_inv h0 h'" using s by (rule copy_step_inv)
  have mm0: "mut_marks L h0 h" using s mm by (rule mut_marks_back)
  from d consider "v = Null" | w c where "v = Ref w" "marked_as h0 h w c"
    | "IS_MUTABLE_OBJ L h0 v = Inr False" unfolding val_done_def by blast
  then show ?thesis
  proof cases
    case 1
    then show ?thesis by (simp add: fwd_nonref)
  next
    case 2
    from s 2(2) have "marked_as h0 h' w c" by (rule copy_step_keep)
    with 2 show ?thesis by (simp add: fwd_marked)
  next
    case 3
    show ?thesis
    proof (cases "\<exists>w. v = Ref w")
      case True
      then obtain w where w: "v = Ref w" by blast
      have "\<forall>c. \<not> marked_as h0 h w c" using mut_marks_unmarked [OF mm0] 3 w by blast
      moreover have "\<forall>c. \<not> marked_as h0 h' w c" using mut_marks_unmarked [OF mm] 3 w by blast
      ultimately show ?thesis
        using fwd_unmarked [OF inv ok] fwd_unmarked [OF inv' ok] w by simp
    next
      case False
      then show ?thesis by (simp add: fwd_nonref)
    qed
  qed
qed

lemma val_done_stable:
  assumes "val_done L h0 h v" and "copy_step h0 h h' S"
  shows "val_done L h0 h' v"
  using assms unfolding val_done_def copy_step_def by blast

lemma slot_copied_stable:
  assumes f: "slot_copied L h0 h x c j" and s: "copy_step h0 h h' S" and inv: "copy_inv h0 h"
    and mm: "mut_marks L h0 h'" and ok: "heap_ok h0"
    and e: "bags h' c = bags h c"
  shows "slot_copied L h0 h' x c j"
proof -
  from f have d: "val_done L h0 h (slots x ! j)" by (simp add: slot_copied_def)
  have "fwd h' (slots x ! j) = fwd h (slots x ! j)" using d s inv mm ok by (rule fwd_stable)
  moreover have "val_done L h0 h' (slots x ! j)" using d s by (rule val_done_stable)
  ultimately show ?thesis using f e by (cases "bags h c") (simp_all add: slot_copied_def)
qed

lemma filled_stable:
  assumes f: "filled L h0 h w c" and s: "copy_step h0 h h' S" and inv: "copy_inv h0 h"
    and mm: "mut_marks L h0 h'" and ok: "heap_ok h0"
    and e: "bags h' c = bags h c"
  shows "filled L h0 h' w c"
proof -
  have "slot_copied L h0 h x c j \<Longrightarrow> slot_copied L h0 h' x c j" for x j
    using s inv mm ok e by (rule slot_copied_stable [rotated])
  with f show ?thesis
    unfolding filled_def by (cases "bags h0 w") auto
qed

lemma begin_copy_Unchanged:
  assumes "begin_copy L h obj mut com = Inr Unchanged"
  shows "IS_MUTABLE_OBJ L h obj = Inr False"
proof (cases "IS_MUTABLE_OBJ L h obj")
  case (Inl e)
  with assms show ?thesis by (simp add: begin_copy_def bindE_def)
next
  case (Inr m)
  show ?thesis
  proof (cases m)
    case False
    with Inr show ?thesis by simp
  next
    case True
    with Inr assms have "False"
      by (auto simp: begin_copy_def bindE_def NewBag_def
          split: sum.splits if_splits Obj.splits prod.splits)
    then show ?thesis ..
  qed
qed

lemma COPY_OBJ_Suc_same:
  assumes "COPY_OBJ L (Suc n) h obj mut = Some (Inr (h', r))"
  shows "(h' = h \<and> r = obj \<and> (\<exists>t. TNUM_OBJ h obj = Inr t \<and> t \<le> LAST_REAL_TNUM) \<and>
        IS_MUTABLE_OBJ L h obj = Inr False) \<or>
    (h' = h \<and> (\<exists>k. TNUM_OBJ h obj = Inr (k + COPYING) \<and>
        k \<in> {T_POSOBJ, T_COMOBJ, T_DATOBJ}) \<and> CopyObjPosObjCopy h obj = Inr (h, r)) \<or>
    (\<exists>h1 b c. TNUM_OBJ h obj = Inr T_POSOBJ \<and> begin_copy L h obj mut False = Inr (Started h1 b c) \<and>
        CopyObjPosObj_subvalues L n h1 b c mut 1 = Some (Inr h') \<and> r = Ref c) \<or>
    (\<exists>h1 b c. TNUM_OBJ h obj = Inr T_COMOBJ \<and> begin_copy L h obj mut True = Inr (Started h1 b c) \<and>
        CopyObjComObj_subvalues L n h1 b c mut 1 = Some (Inr h') \<and> r = Ref c) \<or>
    (\<exists>h1 b c k. TNUM_OBJ h obj = Inr T_DATOBJ \<and> begin_copy L h obj mut False = Inr (Started h1 b c) \<and>
        copy_words h1 b c 1 k = Inr h' \<and> r = Ref c)"
proof -
  from assms obtain t where t: "TNUM_OBJ h obj = Inr t"
    by (cases "TNUM_OBJ h obj") auto
  from assms t obtain f where f: "CopyObjFuncs t = Some f"
    by (cases "CopyObjFuncs t") auto
  have tags: "f = CopyObjPosObj_fn \<Longrightarrow> t = T_POSOBJ" "f = CopyObjComObj_fn \<Longrightarrow> t = T_COMOBJ"
    "f = CopyObjDatObj_fn \<Longrightarrow> t = T_DATOBJ"
    "f = CopyObjPosObjCopy_fn \<Longrightarrow> t = T_POSOBJ + COPYING"
    "f = CopyObjComObjCopy_fn \<Longrightarrow> t = T_COMOBJ + COPYING"
    "f = CopyObjDatObjCopy_fn \<Longrightarrow> t = T_DATOBJ + COPYING"
    "f = CopyObjConstant_fn \<Longrightarrow> FIRST_CONSTANT_TNUM \<le> t \<and> t \<le> LAST_CONSTANT_TNUM"
    using f by (auto simp: CopyObjFuncs_def split: if_splits)
  have real: "T_POSOBJ \<le> LAST_REAL_TNUM" "T_COMOBJ \<le> LAST_REAL_TNUM" "T_DATOBJ \<le> LAST_REAL_TNUM"
    by (simp_all add: tnum_defs)
  show ?thesis
  proof (cases f)
    case CopyObjPosObj_fn
    with assms t f obtain st where st: "begin_copy L h obj mut False = Inr st"
      by (cases "begin_copy L h obj mut False") auto
    show ?thesis
    proof (cases st)
      case Unchanged
      with st have "IS_MUTABLE_OBJ L h obj = Inr False" by (simp add: begin_copy_Unchanged)
      moreover from assms t f CopyObjPosObj_fn st Unchanged have "h' = h" "r = obj" by simp_all
      ultimately show ?thesis using t tags(1) [OF CopyObjPosObj_fn] real by blast
    next
      case (Started h1 b c)
      with assms t f CopyObjPosObj_fn st tags(1) [OF CopyObjPosObj_fn] show ?thesis
        by (auto split: sum.splits option.splits)
    qed
  next
    case CopyObjComObj_fn
    with assms t f obtain st where st: "begin_copy L h obj mut True = Inr st"
      by (cases "begin_copy L h obj mut True") auto
    show ?thesis
    proof (cases st)
      case Unchanged
      with st have "IS_MUTABLE_OBJ L h obj = Inr False" by (simp add: begin_copy_Unchanged)
      moreover from assms t f CopyObjComObj_fn st Unchanged have "h' = h" "r = obj" by simp_all
      ultimately show ?thesis using t tags(2) [OF CopyObjComObj_fn] real by blast
    next
      case (Started h1 b c)
      with assms t f CopyObjComObj_fn st tags(2) [OF CopyObjComObj_fn] show ?thesis
        by (auto split: sum.splits option.splits)
    qed
  next
    case CopyObjDatObj_fn
    with assms t f have d: "CopyObjDatObj L h obj mut = Inr (h', r)" by simp
    then obtain st where st: "begin_copy L h obj mut False = Inr st"
      and k: "(case st of Unchanged \<Rightarrow> Inr (h, obj)
        | Started h1 b copy \<Rightarrow>
           bindE (SIZE_OBJ h1 b) (\<lambda>sz.
           bindE (copy_words h1 b copy 1 (((sz + 2 ^ 64 - 8 + 8 - 1) mod 2 ^ 64) div 8)) (\<lambda>h2.
           Inr (h2, Ref copy)))) = Inr (h', r)"
      unfolding CopyObjDatObj_def bindE_Inr [of "begin_copy _ _ _ _ _"] by blast
    show ?thesis
    proof (cases st)
      case Unchanged
      with st have "IS_MUTABLE_OBJ L h obj = Inr False" by (simp add: begin_copy_Unchanged)
      moreover from k Unchanged have "h' = h" "r = obj" by simp_all
      ultimately show ?thesis using t tags(3) [OF CopyObjDatObj_fn] real by blast
    next
      case (Started h1 b c)
      with k obtain kk where "copy_words h1 b c 1 kk = Inr h'" and "r = Ref c"
        by (auto simp: bindE_Inr)
      with st Started t tags(3) [OF CopyObjDatObj_fn] show ?thesis by blast
    qed
  next
    case CopyObjError_fn
    with assms t f show ?thesis by simp
  next
    case CopyObjConstant_fn
    from tags(7) [OF this] have c: "FIRST_CONSTANT_TNUM \<le> t \<and> t \<le> LAST_CONSTANT_TNUM" .
    then have "IS_MUTABLE_OBJ L h obj = Inr False" "t \<le> LAST_REAL_TNUM"
      using t by (simp_all add: IS_MUTABLE_OBJ_def bindE_def tnum_defs)
    moreover from assms t f CopyObjConstant_fn have "h' = h" "r = obj" by simp_all
    ultimately show ?thesis using t by blast
  next
    case CopyObjPosObjCopy_fn
    with assms t f have c: "CopyObjPosObjCopy h obj = Inr (h', r)" by simp
    then have "h' = h" by (auto simp: CopyObjPosObjCopy_def bindE_Inr split: Obj.splits)
    with c t tags(4) [OF CopyObjPosObjCopy_fn] show ?thesis by blast
  next
    case CopyObjComObjCopy_fn
    with assms t f have c: "CopyObjPosObjCopy h obj = Inr (h', r)" by simp
    then have "h' = h" by (auto simp: CopyObjPosObjCopy_def bindE_Inr split: Obj.splits)
    with c t tags(5) [OF CopyObjComObjCopy_fn] show ?thesis by blast
  next
    case CopyObjDatObjCopy_fn
    with assms t f have c: "CopyObjPosObjCopy h obj = Inr (h', r)" by simp
    then have "h' = h" by (auto simp: CopyObjPosObjCopy_def bindE_Inr split: Obj.splits)
    with c t tags(6) [OF CopyObjDatObjCopy_fn] show ?thesis by blast
  qed
qed

lemma begin_copy_marks:
  assumes inv: "copy_inv h0 h" and ok: "heap_ok h0"
    and bc: "begin_copy L h obj mut com = Inr (Started h1 b c)"
    and un: "bags h b = bags h0 b"
    and m: "marked_as h0 h1 w c'"
  shows "(w = b \<and> c' = c) \<or> marked_as h0 h w c'"
proof (cases "w = b")
  case True
  from begin_copy_step [OF inv ok bc un] have m1: "marked_as h0 h1 b c" by blast
  from m1 m have "c' = c" unfolding True by (rule marked_as_bag_eq) simp
  with True show ?thesis by simp
next
  case False
  from inv have fresh: "\<forall>k. nextbag h \<le> k \<longrightarrow> bags h k = None" by (simp add: copy_inv_def)
  from begin_copy_Started [OF bc fresh] obtain x y where c: "c = nextbag h"
    and b1: "\<And>k. bags h1 k =
        (if k = b then Some (x\<lparr>tnum := tnum x + COPYING, slots := (slots x)[0 := Ref (Suc c)]\<rparr>)
         else if k = Suc c
           then Some \<lparr>tnum = T_PLIST, size = 24, slots = [IntObj 2, slots x ! 0, Ref c]\<rparr>
         else if k = c then Some y else bags h k)"
    by blast
  have lt: "w < nextbag h0" using ok m by (rule marked_as_original)
  moreover have "nextbag h0 \<le> nextbag h" using inv by (simp add: copy_inv_def)
  ultimately have e: "bags h1 w = bags h w" using False c by (simp add: b1)
  from marked_as_transfer [OF inv ok m e] show ?thesis by blast
qed

lemma copy_words_marks:
  assumes ok: "heap_ok h0"
  shows "copy_inv h0 h \<Longrightarrow> copy_words h b c0 p k = Inr h' \<Longrightarrow> nextbag h0 \<le> c0 \<Longrightarrow>
    \<forall>b' c'. marked_as h0 h b' c' \<longrightarrow> Suc c' \<noteq> c0 \<Longrightarrow>
    \<forall>b' c'. marked_as h0 h' b' c' \<longrightarrow> marked_as h0 h b' c'"
proof (induction k arbitrary: h p)
  case 0
  then show ?case by simp
next
  case (Suc k)
  from Suc.prems(2) obtain v h1 where s: "set_slot h c0 p v = Inr h1"
    and r: "copy_words h1 b c0 (Suc p) k = Inr h'"
    by (auto split: sum.splits)
  from set_slot_copy_step [OF Suc.prems(1) ok s Suc.prems(3,4)]
  have s1: "copy_step h0 h h1 {c0}"
    and o1: "\<forall>b c. marked_as h0 h1 b c \<longrightarrow> marked_as h0 h b c"
    by blast+
  have inv1: "copy_inv h0 h1" using s1 by (rule copy_step_inv)
  have nf1: "\<forall>b' c'. marked_as h0 h1 b' c' \<longrightarrow> Suc c' \<noteq> c0" using Suc.prems(4) o1 by blast
  from Suc.IH [OF inv1 r Suc.prems(3) nf1] o1 show ?case by blast
qed

lemma copy_step_same:
  "copy_step h0 h h' S \<Longrightarrow> nextbag h0 \<le> k \<Longrightarrow> k < nextbag h \<Longrightarrow> k \<notin> S \<Longrightarrow> bags h' k = bags h k"
  by (simp add: copy_step_def)

lemma no_new_marks:
  assumes "copy_inv h0 h"
  shows "\<forall>w c. marked_as h0 h w c \<and> nextbag h \<le> c \<longrightarrow> filled L h0 h w c"
  using marked_as_lt [OF assms] by fastforce

lemma mut_marks_sub:
  assumes "mut_marks L h0 h" and "\<forall>b c. marked_as h0 h' b c \<longrightarrow> marked_as h0 h b c"
  shows "mut_marks L h0 h'"
  using assms unfolding mut_marks_def by blast

lemma kept_below_refl: "bags h c = Some y \<Longrightarrow> kept_below h h c i"
  by (simp add: kept_below_def)

lemma vpos_case:
  assumes ok: "heap_ok h0" and IHc: "vcopy_ok L h0 n" and IHp: "vpos_ok L h0 n"
    and Cc: "copy_ok L h0 n" and Cp: "pos_ok L h0 n"
  shows "vpos_ok L h0 (Suc n)"
  unfolding vpos_ok_def
proof (intro allI impI)
  fix h b cb c0 mut i h' x y
  assume inv: "copy_inv h0 h" and m: "marked_as h0 h b cb" and x: "bags h0 b = Some x"
    and tx: "tnum x = T_POSOBJ" and ge: "nextbag h0 \<le> c0" and lt: "c0 < nextbag h"
    and nf: "\<forall>b' c'. marked_as h0 h b' c' \<longrightarrow> Suc c' \<noteq> c0" and i: "1 \<le> i"
    and mm: "mut_marks L h0 h" and y: "bags h c0 = Some y"
    and ly: "size x div 8 \<le> length (slots y)"
    and nl: "\<forall>j. i \<le> j \<and> j < length (slots y) \<longrightarrow> slots y ! j = Null"
    and run: "CopyObjPosObj_subvalues L (Suc n) h b c0 mut i = Some (Inr h')"
  let ?goal = "mut_marks L h0 h' \<and> kept_below h h' c0 i \<and>
        (\<forall>j. i \<le> j \<and> j < size x div 8 \<longrightarrow> slot_copied L h0 h' x c0 j) \<and>
        (\<forall>w c. marked_as h0 h' w c \<and> nextbag h \<le> c \<longrightarrow> filled L h0 h' w c)"
  from CopyObjPosObj_subvalues_Suc_cases [OF run] obtain sz where sz: "SIZE_OBJ h b = Inr sz"
    and cases: "(\<not> i < sz div 8 \<and> h' = h) \<or>
     (i < sz div 8 \<and> (\<exists>v. get_slot h b i = Inr v \<and>
        ((v = Null \<and> CopyObjPosObj_subvalues L n h b c0 mut (i + 1) = Some (Inr h')) \<or>
         (v \<noteq> Null \<and> (\<exists>h1 tmp h2. COPY_OBJ L n h v mut = Some (Inr (h1, tmp)) \<and>
            set_slot h1 c0 i tmp = Inr h2 \<and>
            CopyObjPosObj_subvalues L n h2 b c0 mut (i + 1) = Some (Inr h'))))))"
    by blast
  have szx: "sz = size x" using m x sz by (rule marked_slots(1))
  have i1: "1 \<le> i + 1" by simp
  from cases show ?goal
  proof (elim disjE conjE exE)
    assume a: "\<not> i < sz div 8" and e: "h' = h"
    have "kept_below h h' c0 i" unfolding e using y by (rule kept_below_refl)
    moreover have "\<forall>j. i \<le> j \<and> j < size x div 8 \<longrightarrow> slot_copied L h0 h' x c0 j"
      using a szx by auto
    moreover have "\<forall>w c. marked_as h0 h' w c \<and> nextbag h \<le> c \<longrightarrow> filled L h0 h' w c"
      unfolding e using inv by (rule no_new_marks)
    ultimately show ?goal using mm e by simp
  next
    fix v assume ir: "i < sz div 8" and gs: "get_slot h b i = Inr v" and vn: "v = Null"
      and l: "CopyObjPosObj_subvalues L n h b c0 mut (i + 1) = Some (Inr h')"
    from marked_slots(2) [OF m x gs i] have il: "i < length (slots x)" and v: "v = slots x ! i"
      by simp_all
    have nl': "\<forall>j. i + 1 \<le> j \<and> j < length (slots y) \<longrightarrow> slots y ! j = Null" using nl by simp
    from IHp inv m x tx ge lt nf i1 mm y ly nl' l
    have r: "mut_marks L h0 h' \<and> kept_below h h' c0 (i + 1) \<and>
        (\<forall>j. i + 1 \<le> j \<and> j < size x div 8 \<longrightarrow> slot_copied L h0 h' x c0 j) \<and>
        (\<forall>w c. marked_as h0 h' w c \<and> nextbag h \<le> c \<longrightarrow> filled L h0 h' w c)"
      unfolding vpos_ok_def by blast
    then obtain y' where y': "bags h' c0 = Some y'" and len: "length (slots y') = length (slots y)"
      and keep: "\<forall>j. j < i + 1 \<longrightarrow> slots y' ! j = slots y ! j"
      using y by (cases "bags h' c0") (simp_all add: kept_below_def)
    have kb: "kept_below h h' c0 i" using y y' len keep by (simp add: kept_below_def)
    have iy: "i < length (slots y)" using ir szx ly by simp
    have "slots y' ! i = Null" using keep nl iy by simp
    then have sci: "slot_copied L h0 h' x c0 i"
      using il y' len iy v vn by (simp add: slot_copied_def val_done_def fwd_nonref)
    have "\<forall>j. i \<le> j \<and> j < size x div 8 \<longrightarrow> slot_copied L h0 h' x c0 j"
    proof (intro allI impI)
      fix j assume j: "i \<le> j \<and> j < size x div 8"
      show "slot_copied L h0 h' x c0 j"
      proof (cases "j = i")
        case True
        with sci show ?thesis by simp
      next
        case False
        with j have "i + 1 \<le> j \<and> j < size x div 8" by simp
        with r show ?thesis by blast
      qed
    qed
    with r kb show ?goal by blast
  next
    fix v h1 tmp h2
    assume ir: "i < sz div 8" and gs: "get_slot h b i = Inr v" and vn: "v \<noteq> Null"
      and c: "COPY_OBJ L n h v mut = Some (Inr (h1, tmp))"
      and s: "set_slot h1 c0 i tmp = Inr h2"
      and l: "CopyObjPosObj_subvalues L n h2 b c0 mut (i + 1) = Some (Inr h')"
    from marked_slots(2) [OF m x gs i] have il: "i < length (slots x)" and v: "v = slots x ! i"
      by simp_all
    have cl: "closed_val (nextbag h0) v" unfolding v using ok x il by (rule heap_ok_closed)
    from Cc inv cl c have s1: "copy_step h0 h h1 {}"
      unfolding copy_ok_def by blast
    from IHc inv cl mm c have mm1: "mut_marks L h0 h1" and tmp: "tmp = fwd h1 v"
      and d1: "val_done L h0 h1 v"
      and f1: "\<forall>w c. marked_as h0 h1 w c \<and> nextbag h \<le> c \<longrightarrow> filled L h0 h1 w c"
      unfolding vcopy_ok_def by blast+
    have inv1: "copy_inv h0 h1" using s1 by (rule copy_step_inv)
    have nf1: "\<forall>b' c'. marked_as h0 h1 b' c' \<longrightarrow> Suc c' \<noteq> c0"
      using s1 inv nf lt by (rule nf_step)
    from set_slot_copy_step [OF inv1 ok s ge nf1]
    have s2: "copy_step h0 h1 h2 {c0}"
      and o2: "\<forall>b c. marked_as h0 h2 b c \<longrightarrow> marked_as h0 h1 b c"
      by blast+
    have inv2: "copy_inv h0 h2" using s2 by (rule copy_step_inv)
    have m2: "marked_as h0 h2 b cb"
      using s2 s1 m by (blast intro: copy_step_keep)
    have lt1: "c0 < nextbag h1" using lt copy_step_nextbag [OF s1] by simp
    have lt2: "c0 < nextbag h2" using lt1 copy_step_nextbag [OF s2] by simp
    have nf2: "\<forall>b' c'. marked_as h0 h2 b' c' \<longrightarrow> Suc c' \<noteq> c0"
      using nf1 o2 by blast
    have mm2: "mut_marks L h0 h2" using mm1 o2 by (rule mut_marks_sub)
    have e1: "bags h1 c0 = Some y" using copy_step_same [OF s1 ge lt] y by simp
    from set_slot_Inr [OF s] e1
    have y2: "bags h2 c0 = Some (y\<lparr>slots := (slots y)[i := tmp]\<rparr>)" and iy: "i < length (slots y)"
      by auto
    let ?y2 = "y\<lparr>slots := (slots y)[i := tmp]\<rparr>"
    have ly2: "size x div 8 \<le> length (slots ?y2)" using ly by simp
    have nl2: "\<forall>j. i + 1 \<le> j \<and> j < length (slots ?y2) \<longrightarrow> slots ?y2 ! j = Null"
      using nl by simp
    from IHp inv2 m2 x tx ge lt2 nf2 i1 mm2 y2 ly2 nl2 l
    have r: "mut_marks L h0 h' \<and> kept_below h2 h' c0 (i + 1) \<and>
        (\<forall>j. i + 1 \<le> j \<and> j < size x div 8 \<longrightarrow> slot_copied L h0 h' x c0 j) \<and>
        (\<forall>w c. marked_as h0 h' w c \<and> nextbag h2 \<le> c \<longrightarrow> filled L h0 h' w c)"
      unfolding vpos_ok_def by blast
    then have mm': "mut_marks L h0 h'" by simp
    from Cp inv2 m2 x tx ge lt2 nf2 i1 l
    have s3: "copy_step h0 h2 h' {c0}"
      unfolding pos_ok_def by blast
    have s13: "copy_step h0 h1 h' {c0}" using s2 s3 by (rule copy_step_trans)
    from r obtain y' where y': "bags h' c0 = Some y'"
      and len: "length (slots y') = length (slots y)"
      and keep: "\<forall>j. j < i + 1 \<longrightarrow> slots y' ! j = slots ?y2 ! j"
      using y2 by (cases "bags h' c0") (simp_all add: kept_below_def)
    have kb: "kept_below h h' c0 i" using y y' len keep by (simp add: kept_below_def)
    have "slots y' ! i = tmp" using keep iy by simp
    moreover have "fwd h' v = fwd h1 v" using d1 s13 inv1 mm' ok by (rule fwd_stable)
    moreover have "val_done L h0 h' v" using d1 s13 by (rule val_done_stable)
    ultimately have sci: "slot_copied L h0 h' x c0 i"
      using il y' len iy v tmp by (simp add: slot_copied_def)
    have sc: "\<forall>j. i \<le> j \<and> j < size x div 8 \<longrightarrow> slot_copied L h0 h' x c0 j"
    proof (intro allI impI)
      fix j assume j: "i \<le> j \<and> j < size x div 8"
      show "slot_copied L h0 h' x c0 j"
      proof (cases "j = i")
        case True
        with sci show ?thesis by simp
      next
        case False
        with j have "i + 1 \<le> j \<and> j < size x div 8" by simp
        with r show ?thesis by blast
      qed
    qed
    have new: "\<forall>w c. marked_as h0 h' w c \<and> nextbag h \<le> c \<longrightarrow> filled L h0 h' w c"
    proof (intro allI impI)
      fix w c assume a: "marked_as h0 h' w c \<and> nextbag h \<le> c"
      then have "marked_as h0 h' w c" by simp
      with s3 have "marked_as h0 h2 w c \<or> nextbag h2 \<le> c" by (rule copy_step_new)
      then show "filled L h0 h' w c"
      proof
        assume "nextbag h2 \<le> c"
        with a r show ?thesis by blast
      next
        assume "marked_as h0 h2 w c"
        with o2 have m1: "marked_as h0 h1 w c" by blast
        with a f1 have f: "filled L h0 h1 w c" by blast
        have "Suc c < nextbag h1" using inv1 m1 by (rule marked_as_lt)
        then have c1: "c < nextbag h1" by simp
        have c2: "nextbag h0 \<le> c" using a inv by (simp add: copy_inv_def)
        have c3: "c \<notin> {c0}" using a lt by auto
        have "bags h' c = bags h1 c" using s13 c2 c1 c3 by (rule copy_step_same)
        with f s13 inv1 mm' ok show ?thesis by (rule filled_stable)
      qed
    qed
    from mm' kb sc new show ?goal by blast
  qed
qed

lemma vcom_case:
  assumes ok: "heap_ok h0" and IHc: "vcopy_ok L h0 n" and IHp: "vcom_ok L h0 n"
    and Cc: "copy_ok L h0 n" and Cp: "com_ok L h0 n"
  shows "vcom_ok L h0 (Suc n)"
  unfolding vcom_ok_def
proof (intro allI impI)
  fix h b cb c0 mut i h' x
  assume inv: "copy_inv h0 h" and m: "marked_as h0 h b cb" and x: "bags h0 b = Some x"
    and tx: "tnum x = T_COMOBJ" and ge: "nextbag h0 \<le> c0" and lt: "c0 < nextbag h"
    and nf: "\<forall>b' c'. marked_as h0 h b' c' \<longrightarrow> Suc c' \<noteq> c0" and i: "1 \<le> i"
    and mm: "mut_marks L h0 h" and ex: "bags h c0 \<noteq> None"
    and run: "CopyObjComObj_subvalues L (Suc n) h b c0 mut i = Some (Inr h')"
  let ?goal = "mut_marks L h0 h' \<and> kept_below h h' c0 (2 * i) \<and>
        (\<forall>j len. 1 < length (slots x) \<and> slots x ! 1 = Word len \<and> i \<le> j \<and> j \<le> len \<longrightarrow>
           slot_copied L h0 h' x c0 (2 * j + 1)) \<and>
        (\<forall>w c. marked_as h0 h' w c \<and> nextbag h \<le> c \<longrightarrow> filled L h0 h' w c)"
  from ex obtain y where y: "bags h c0 = Some y" by blast
  from CopyObjComObj_subvalues_Suc_cases [OF run] obtain len where len: "LEN_PREC h b = Inr len"
    and cases: "(\<not> i \<le> len \<and> h' = h) \<or>
     (i \<le> len \<and> (\<exists>rn ha v h1 tmp h2. GET_RNAM_PREC h b i = Inr rn \<and>
        SET_RNAM_PREC h c0 i rn = Inr ha \<and> GET_ELM_PREC ha b i = Inr v \<and>
        COPY_OBJ L n ha v mut = Some (Inr (h1, tmp)) \<and> SET_ELM_PREC h1 c0 i tmp = Inr h2 \<and>
        CopyObjComObj_subvalues L n h2 b c0 mut (i + 1) = Some (Inr h')))"
    by blast
  from marked_slots(2) [OF m x LEN_PREC_Inr [OF len]]
  have l1: "1 < length (slots x)" and w1: "slots x ! 1 = Word len" by simp_all
  have i1: "1 \<le> i + 1" by simp
  from cases show ?goal
  proof (elim disjE conjE exE)
    assume a: "\<not> i \<le> len" and e: "h' = h"
    have "kept_below h h' c0 (2 * i)" unfolding e using y by (rule kept_below_refl)
    moreover have "\<forall>j len. 1 < length (slots x) \<and> slots x ! 1 = Word len \<and> i \<le> j \<and> j \<le> len \<longrightarrow>
           slot_copied L h0 h' x c0 (2 * j + 1)"
      using a w1 by auto
    moreover have "\<forall>w c. marked_as h0 h' w c \<and> nextbag h \<le> c \<longrightarrow> filled L h0 h' w c"
      unfolding e using inv by (rule no_new_marks)
    ultimately show ?goal using mm e by simp
  next
    fix rn ha v h1 tmp h2
    assume ir: "i \<le> len"
      and sr: "SET_RNAM_PREC h c0 i rn = Inr ha" and ge': "GET_ELM_PREC ha b i = Inr v"
      and c: "COPY_OBJ L n ha v mut = Some (Inr (h1, tmp))"
      and s: "SET_ELM_PREC h1 c0 i tmp = Inr h2"
      and l: "CopyObjComObj_subvalues L n h2 b c0 mut (i + 1) = Some (Inr h')"
    from sr have sr': "set_slot h c0 (2 * i) (Word rn) = Inr ha" by (simp add: SET_RNAM_PREC_def)
    from set_slot_copy_step [OF inv ok sr' ge nf]
    have sa: "copy_step h0 h ha {c0}"
      and oa: "\<forall>b c. marked_as h0 ha b c \<longrightarrow> marked_as h0 h b c"
      by blast+
    from set_slot_Inr [OF sr'] y
    have ya: "bags ha c0 = Some (y\<lparr>slots := (slots y)[2 * i := Word rn]\<rparr>)"
      and na: "nextbag ha = nextbag h"
      by auto
    let ?ya = "y\<lparr>slots := (slots y)[2 * i := Word rn]\<rparr>"
    have inva: "copy_inv h0 ha" using sa by (rule copy_step_inv)
    have ma: "marked_as h0 ha b cb" using sa m by (rule copy_step_keep)
    have lta: "c0 < nextbag ha" using lt na by simp
    have nfa: "\<forall>b' c'. marked_as h0 ha b' c' \<longrightarrow> Suc c' \<noteq> c0" using nf oa by blast
    have mma: "mut_marks L h0 ha" using mm oa by (rule mut_marks_sub)
    from ge' have gs: "get_slot ha b (2 * i + 1) = Inr v" by (simp add: GET_ELM_PREC_def)
    have "1 \<le> 2 * i + 1" by simp
    from marked_slots(2) [OF ma x gs this]
    have il: "2 * i + 1 < length (slots x)" and v: "v = slots x ! (2 * i + 1)" by simp_all
    have cl: "closed_val (nextbag h0) v" unfolding v using ok x il by (rule heap_ok_closed)
    from Cc inva cl c have s1: "copy_step h0 ha h1 {}"
      unfolding copy_ok_def by blast
    from IHc inva cl mma c have mm1: "mut_marks L h0 h1" and tmp: "tmp = fwd h1 v"
      and d1: "val_done L h0 h1 v"
      and f1: "\<forall>w c. marked_as h0 h1 w c \<and> nextbag ha \<le> c \<longrightarrow> filled L h0 h1 w c"
      unfolding vcopy_ok_def by blast+
    have inv1: "copy_inv h0 h1" using s1 by (rule copy_step_inv)
    have nf1: "\<forall>b' c'. marked_as h0 h1 b' c' \<longrightarrow> Suc c' \<noteq> c0"
      using s1 inva nfa lta by (rule nf_step)
    from s have s': "set_slot h1 c0 (2 * i + 1) tmp = Inr h2" by (simp add: SET_ELM_PREC_def)
    from set_slot_copy_step [OF inv1 ok s' ge nf1]
    have s2: "copy_step h0 h1 h2 {c0}"
      and o2: "\<forall>b c. marked_as h0 h2 b c \<longrightarrow> marked_as h0 h1 b c"
      by blast+
    have inv2: "copy_inv h0 h2" using s2 by (rule copy_step_inv)
    have m2: "marked_as h0 h2 b cb"
      using s2 s1 ma by (blast intro: copy_step_keep)
    have lt1: "c0 < nextbag h1" using lta copy_step_nextbag [OF s1] by simp
    have lt2: "c0 < nextbag h2" using lt1 copy_step_nextbag [OF s2] by simp
    have nf2: "\<forall>b' c'. marked_as h0 h2 b' c' \<longrightarrow> Suc c' \<noteq> c0"
      using nf1 o2 by blast
    have mm2: "mut_marks L h0 h2" using mm1 o2 by (rule mut_marks_sub)
    have e1: "bags h1 c0 = Some ?ya" using copy_step_same [OF s1 ge lta] ya by simp
    from set_slot_Inr [OF s'] e1
    have y2: "bags h2 c0 = Some (?ya\<lparr>slots := (slots ?ya)[2 * i + 1 := tmp]\<rparr>)"
      and iy: "2 * i + 1 < length (slots y)"
      by auto
    let ?y2 = "?ya\<lparr>slots := (slots ?ya)[2 * i + 1 := tmp]\<rparr>"
    have ex2: "bags h2 c0 \<noteq> None" using y2 by simp
    from IHp inv2 m2 x tx ge lt2 nf2 i1 mm2 ex2 l
    have r: "mut_marks L h0 h' \<and> kept_below h2 h' c0 (2 * (i + 1)) \<and>
        (\<forall>j len. 1 < length (slots x) \<and> slots x ! 1 = Word len \<and> i + 1 \<le> j \<and> j \<le> len \<longrightarrow>
           slot_copied L h0 h' x c0 (2 * j + 1)) \<and>
        (\<forall>w c. marked_as h0 h' w c \<and> nextbag h2 \<le> c \<longrightarrow> filled L h0 h' w c)"
      unfolding vcom_ok_def by blast
    then have mm': "mut_marks L h0 h'" by simp
    from Cp inv2 m2 x tx ge lt2 nf2 i1 l
    have s3: "copy_step h0 h2 h' {c0}"
      unfolding com_ok_def by blast
    have s13: "copy_step h0 h1 h' {c0}" using s2 s3 by (rule copy_step_trans)
    from r obtain y' where y': "bags h' c0 = Some y'"
      and len': "length (slots y') = length (slots y)"
      and keep: "\<forall>j. j < 2 * (i + 1) \<longrightarrow> slots y' ! j = slots ?y2 ! j"
      using y2 by (cases "bags h' c0") (simp_all add: kept_below_def)
    have kb: "kept_below h h' c0 (2 * i)" using y y' len' keep by (simp add: kept_below_def)
    have "slots y' ! (2 * i + 1) = tmp" using keep iy by simp
    moreover have "fwd h' v = fwd h1 v" using d1 s13 inv1 mm' ok by (rule fwd_stable)
    moreover have "val_done L h0 h' v" using d1 s13 by (rule val_done_stable)
    ultimately have sci: "slot_copied L h0 h' x c0 (2 * i + 1)"
      using il y' len' iy v tmp by (simp add: slot_copied_def)
    have sc: "\<forall>j len. 1 < length (slots x) \<and> slots x ! 1 = Word len \<and> i \<le> j \<and> j \<le> len \<longrightarrow>
           slot_copied L h0 h' x c0 (2 * j + 1)"
    proof (intro allI impI)
      fix j len' assume j: "1 < length (slots x) \<and> slots x ! 1 = Word len' \<and> i \<le> j \<and> j \<le> len'"
      show "slot_copied L h0 h' x c0 (2 * j + 1)"
      proof (cases "j = i")
        case True
        with sci show ?thesis by simp
      next
        case False
        with j have "1 < length (slots x) \<and> slots x ! 1 = Word len' \<and> i + 1 \<le> j \<and> j \<le> len'"
          by simp
        with r show ?thesis by blast
      qed
    qed
    have new: "\<forall>w c. marked_as h0 h' w c \<and> nextbag h \<le> c \<longrightarrow> filled L h0 h' w c"
    proof (intro allI impI)
      fix w c assume a: "marked_as h0 h' w c \<and> nextbag h \<le> c"
      then have "marked_as h0 h' w c" by simp
      with s3 have "marked_as h0 h2 w c \<or> nextbag h2 \<le> c" by (rule copy_step_new)
      then show "filled L h0 h' w c"
      proof
        assume "nextbag h2 \<le> c"
        with a r show ?thesis by blast
      next
        assume "marked_as h0 h2 w c"
        with o2 have m1: "marked_as h0 h1 w c" by blast
        with a f1 na have f: "filled L h0 h1 w c" by simp
        have "Suc c < nextbag h1" using inv1 m1 by (rule marked_as_lt)
        then have c1: "c < nextbag h1" by simp
        have c2: "nextbag h0 \<le> c" using a inv by (simp add: copy_inv_def)
        have c3: "c \<notin> {c0}" using a lt by auto
        have "bags h' c = bags h1 c" using s13 c2 c1 c3 by (rule copy_step_same)
        with f s13 inv1 mm' ok show ?thesis by (rule filled_stable)
      qed
    qed
    from mm' kb sc new show ?goal by blast
  qed
qed

lemma begin_copy_mutable:
  assumes "begin_copy L h obj mut com = Inr (Started h1 b c)"
  shows "IS_MUTABLE_OBJ L h obj = Inr True"
  using assms by (auto simp: begin_copy_def bindE_def split: sum.splits if_splits)

lemma started_facts:
  assumes inv: "copy_inv h0 h" and ok: "heap_ok h0" and cl: "closed_val (nextbag h0) obj"
    and mm: "mut_marks L h0 h"
    and bc: "begin_copy L h obj mut com = Inr (Started h1 b c)"
    and t: "TNUM_OBJ h obj = Inr t" and le: "t \<le> LAST_REAL_TNUM"
  shows "\<exists>x y. obj = Ref b \<and> bags h0 b = Some x \<and> tnum x = t \<and> c = nextbag h \<and>
    nextbag h0 \<le> c \<and> c < nextbag h1 \<and> copy_step h0 h h1 {} \<and> marked_as h0 h1 b c \<and>
    (\<forall>b' c'. marked_as h0 h1 b' c' \<longrightarrow> Suc c' \<noteq> c) \<and> mut_marks L h0 h1 \<and>
    (\<forall>w c'. marked_as h0 h1 w c' \<longrightarrow> (w = b \<and> c' = c) \<or> marked_as h0 h w c') \<and>
    bags h1 c = Some y \<and> size x div 8 \<le> length (slots y) \<and>
    (\<forall>j. (if com then 2 else 1) \<le> j \<and> j < length (slots y) \<longrightarrow> slots y ! j = Null)"
proof -
  from started_pre [OF inv ok cl bc t le] have un: "bags h b = bags h0 b" and o: "obj = Ref b"
    by simp_all
  from begin_copy_step [OF inv ok bc un]
  have s1: "copy_step h0 h h1 {}" and m1: "marked_as h0 h1 b c" and c: "c = nextbag h"
    and nf1: "\<forall>b' c'. marked_as h0 h1 b' c' \<longrightarrow> Suc c' \<noteq> c"
    and n1: "nextbag h1 = Suc (Suc c)"
    by blast+
  from inv have fresh: "\<forall>k. nextbag h \<le> k \<longrightarrow> bags h k = None" by (simp add: copy_inv_def)
  from begin_copy_Started [OF bc fresh] obtain x y where bx: "bags h b = Some x"
    and ly: "length (slots y) = WORDS (size x)"
    and nl: "\<forall>j. (if com then 2 else 1) \<le> j \<and> j < length (slots y) \<longrightarrow> slots y ! j = Null"
    and b1: "\<And>k. bags h1 k =
        (if k = b then Some (x\<lparr>tnum := tnum x + COPYING, slots := (slots x)[0 := Ref (Suc c)]\<rparr>)
         else if k = Suc c
           then Some \<lparr>tnum = T_PLIST, size = 24, slots = [IntObj 2, slots x ! 0, Ref c]\<rparr>
         else if k = c then Some y else bags h k)"
    by blast
  have x: "bags h0 b = Some x" using bx un by simp
  have tx: "tnum x = t" using t bx o by (simp add: TNUM_OBJ_def)
  have bc': "b \<noteq> c" using bx fresh c by auto
  have y: "bags h1 c = Some y" using bc' by (simp add: b1)
  have ge: "nextbag h0 \<le> c" using inv c by (simp add: copy_inv_def)
  have lt: "c < nextbag h1" using n1 by simp
  have sz: "size x div 8 \<le> length (slots y)" unfolding ly WORDS_def by simp
  have marks: "\<forall>w c'. marked_as h0 h1 w c' \<longrightarrow> (w = b \<and> c' = c) \<or> marked_as h0 h w c'"
    using begin_copy_marks [OF inv ok bc un] by blast
  have "IS_MUTABLE_OBJ L h (Ref b) = Inr True" using begin_copy_mutable [OF bc] o by simp
  moreover have "IS_MUTABLE_OBJ L h (Ref b) = IS_MUTABLE_OBJ L h0 (Ref b)"
    by (rule IS_MUTABLE_OBJ_same) (simp add: un)
  ultimately have "IS_MUTABLE_OBJ L h0 (Ref b) = Inr True" by simp
  with marks mm have mm1: "mut_marks L h0 h1" unfolding mut_marks_def by blast
  from o x tx c ge lt s1 m1 nf1 mm1 marks y sz nl show ?thesis by blast
qed

lemma started_new:
  assumes marks: "\<forall>w c'. marked_as h0 h1 w c' \<longrightarrow> (w = b \<and> c' = c) \<or> marked_as h0 h w c'"
    and inv: "copy_inv h0 h" and s2: "copy_step h0 h1 h' S" and fb: "filled L h0 h' b c"
    and f2: "\<forall>w c'. marked_as h0 h' w c' \<and> nextbag h1 \<le> c' \<longrightarrow> filled L h0 h' w c'"
  shows "\<forall>w c'. marked_as h0 h' w c' \<and> nextbag h \<le> c' \<longrightarrow> filled L h0 h' w c'"
proof (intro allI impI)
  fix w c' assume a: "marked_as h0 h' w c' \<and> nextbag h \<le> c'"
  then have "marked_as h0 h' w c'" by simp
  with s2 have "marked_as h0 h1 w c' \<or> nextbag h1 \<le> c'" by (rule copy_step_new)
  then show "filled L h0 h' w c'"
  proof
    assume "nextbag h1 \<le> c'"
    with a f2 show ?thesis by blast
  next
    assume "marked_as h0 h1 w c'"
    with marks have "(w = b \<and> c' = c) \<or> marked_as h0 h w c'" by blast
    then show ?thesis
    proof
      assume "w = b \<and> c' = c"
      with fb show ?thesis by simp
    next
      assume "marked_as h0 h w c'"
      from marked_as_lt [OF inv this] a show ?thesis by simp
    qed
  qed
qed

lemma not_marked_same:
  assumes inv: "copy_inv h0 h" and cl: "closed_val (nextbag h0) obj"
    and t: "TNUM_OBJ h obj = Inr t" and le: "t \<le> LAST_REAL_TNUM"
  shows "IS_MUTABLE_OBJ L h obj = IS_MUTABLE_OBJ L h0 obj"
proof (rule IS_MUTABLE_OBJ_same, intro allI impI)
  fix b assume o: "obj = Ref b"
  with cl have "b < nextbag h0" by (simp add: closed_val_def)
  with inv show "bags h b = bags h0 b" using t le unfolding o by (rule unmarked_by_tag)
qed

lemma vcopy_case:
  assumes ok: "heap_ok h0" and IHp: "vpos_ok L h0 n" and IHc: "vcom_ok L h0 n"
    and Cp: "pos_ok L h0 n" and Cc: "com_ok L h0 n"
  shows "vcopy_ok L h0 (Suc n)"
  unfolding vcopy_ok_def
proof (intro allI impI)
  fix h obj mut h' r
  assume inv: "copy_inv h0 h" and cl: "closed_val (nextbag h0) obj" and mm: "mut_marks L h0 h"
    and run: "COPY_OBJ L (Suc n) h obj mut = Some (Inr (h', r))"
  let ?goal = "mut_marks L h0 h' \<and> r = fwd h' obj \<and> val_done L h0 h' obj \<and>
        (\<forall>w c. marked_as h0 h' w c \<and> nextbag h \<le> c \<longrightarrow> filled L h0 h' w c)"
  from COPY_OBJ_Suc_same [OF run] show ?goal
  proof (elim disjE exE conjE)
    fix t
    assume e: "h' = h" and r: "r = obj" and t: "TNUM_OBJ h obj = Inr t"
      and le: "t \<le> LAST_REAL_TNUM" and im: "IS_MUTABLE_OBJ L h obj = Inr False"
    have "fwd h obj = obj" using t le by (rule fwd_real)
    moreover have "IS_MUTABLE_OBJ L h0 obj = Inr False"
      using not_marked_same [OF inv cl t le] im by simp
    then have "val_done L h0 h obj" by (simp add: val_done_def)
    ultimately show ?goal using e r mm no_new_marks [OF inv] by simp
  next
    fix k
    assume e: "h' = h" and t: "TNUM_OBJ h obj = Inr (k + COPYING)"
      and k': "k \<in> {T_POSOBJ, T_COMOBJ, T_DATOBJ}"
      and c: "CopyObjPosObjCopy h obj = Inr (h, r)"
    from k' have k: "k = T_POSOBJ \<or> k = T_COMOBJ \<or> k = T_DATOBJ" by simp
    from t k obtain b where o: "obj = Ref b"
      by (cases obj) (auto simp: TNUM_OBJ_def tnum_defs)
    with cl have lt: "b < nextbag h0" by (simp add: closed_val_def)
    from marked_by_tag [OF inv ok lt t [unfolded o] k] obtain cb where m: "marked_as h0 h b cb"
      by blast
    from CopyObjPosObjCopy_marked [OF m] c o have r: "r = Ref cb" by simp
    have "fwd h obj = Ref cb" unfolding o using m by (rule fwd_marked)
    moreover have "val_done L h0 h obj" using m o by (auto simp: val_done_def)
    ultimately show ?goal using e r mm no_new_marks [OF inv] by simp
  next
    fix h1 b c
    assume t: "TNUM_OBJ h obj = Inr T_POSOBJ"
      and bc: "begin_copy L h obj mut False = Inr (Started h1 b c)"
      and l: "CopyObjPosObj_subvalues L n h1 b c mut 1 = Some (Inr h')" and r: "r = Ref c"
    have le: "T_POSOBJ \<le> LAST_REAL_TNUM" by (simp add: tnum_defs)
    from started_facts [OF inv ok cl mm bc t le] obtain x y where o: "obj = Ref b"
      and x: "bags h0 b = Some x" and tx: "tnum x = T_POSOBJ"
      and ge: "nextbag h0 \<le> c" and lt: "c < nextbag h1" and s1: "copy_step h0 h h1 {}"
      and m1: "marked_as h0 h1 b c"
      and nf1: "\<forall>b' c'. marked_as h0 h1 b' c' \<longrightarrow> Suc c' \<noteq> c" and mm1: "mut_marks L h0 h1"
      and marks: "\<forall>w c'. marked_as h0 h1 w c' \<longrightarrow> (w = b \<and> c' = c) \<or> marked_as h0 h w c'"
      and y: "bags h1 c = Some y" and sz: "size x div 8 \<le> length (slots y)"
      and nl: "\<forall>j. (if False then 2 else 1) \<le> j \<and> j < length (slots y) \<longrightarrow> slots y ! j = Null"
      by blast
    have inv1: "copy_inv h0 h1" using s1 by (rule copy_step_inv)
    have nl': "\<forall>j. 1 \<le> j \<and> j < length (slots y) \<longrightarrow> slots y ! j = Null" using nl by simp
    have one: "(1::nat) \<le> 1" by simp
    from IHp inv1 m1 x tx ge lt nf1 one mm1 y sz nl' l
    have res: "mut_marks L h0 h' \<and> kept_below h1 h' c 1 \<and>
        (\<forall>j. 1 \<le> j \<and> j < size x div 8 \<longrightarrow> slot_copied L h0 h' x c j) \<and>
        (\<forall>w c'. marked_as h0 h' w c' \<and> nextbag h1 \<le> c' \<longrightarrow> filled L h0 h' w c')"
      unfolding vpos_ok_def by blast
    from Cp inv1 m1 x tx ge lt nf1 one l
    have s2: "copy_step h0 h1 h' {c}" unfolding pos_ok_def by blast
    have m': "marked_as h0 h' b c" using s2 m1 by (rule copy_step_keep)
    have fb: "filled L h0 h' b c" using res x tx by (simp add: filled_def tnum_defs)
    have f2: "\<forall>w c'. marked_as h0 h' w c' \<and> nextbag h1 \<le> c' \<longrightarrow> filled L h0 h' w c'"
      using res by simp
    have "r = fwd h' obj" unfolding o r using m' by (rule fwd_marked [symmetric])
    moreover have "val_done L h0 h' obj" using m' o by (auto simp: val_done_def)
    moreover have "\<forall>w c'. marked_as h0 h' w c' \<and> nextbag h \<le> c' \<longrightarrow> filled L h0 h' w c'"
      using marks inv s2 fb f2 by (rule started_new)
    ultimately show ?goal using res by blast
  next
    fix h1 b c
    assume t: "TNUM_OBJ h obj = Inr T_COMOBJ"
      and bc: "begin_copy L h obj mut True = Inr (Started h1 b c)"
      and l: "CopyObjComObj_subvalues L n h1 b c mut 1 = Some (Inr h')" and r: "r = Ref c"
    have le: "T_COMOBJ \<le> LAST_REAL_TNUM" by (simp add: tnum_defs)
    from started_facts [OF inv ok cl mm bc t le] obtain x y where o: "obj = Ref b"
      and x: "bags h0 b = Some x" and tx: "tnum x = T_COMOBJ"
      and ge: "nextbag h0 \<le> c" and lt: "c < nextbag h1" and s1: "copy_step h0 h h1 {}"
      and m1: "marked_as h0 h1 b c"
      and nf1: "\<forall>b' c'. marked_as h0 h1 b' c' \<longrightarrow> Suc c' \<noteq> c" and mm1: "mut_marks L h0 h1"
      and marks: "\<forall>w c'. marked_as h0 h1 w c' \<longrightarrow> (w = b \<and> c' = c) \<or> marked_as h0 h w c'"
      and y: "bags h1 c = Some y"
      by blast
    have inv1: "copy_inv h0 h1" using s1 by (rule copy_step_inv)
    have ex: "bags h1 c \<noteq> None" using y by simp
    have one: "(1::nat) \<le> 1" by simp
    from IHc inv1 m1 x tx ge lt nf1 one mm1 ex l
    have res: "mut_marks L h0 h' \<and> kept_below h1 h' c (2 * 1) \<and>
        (\<forall>j len. 1 < length (slots x) \<and> slots x ! 1 = Word len \<and> 1 \<le> j \<and> j \<le> len \<longrightarrow>
           slot_copied L h0 h' x c (2 * j + 1)) \<and>
        (\<forall>w c'. marked_as h0 h' w c' \<and> nextbag h1 \<le> c' \<longrightarrow> filled L h0 h' w c')"
      unfolding vcom_ok_def by blast
    from Cc inv1 m1 x tx ge lt nf1 one l
    have s2: "copy_step h0 h1 h' {c}" unfolding com_ok_def by blast
    have m': "marked_as h0 h' b c" using s2 m1 by (rule copy_step_keep)
    have fb: "filled L h0 h' b c" using res x tx by (simp add: filled_def tnum_defs)
    have f2: "\<forall>w c'. marked_as h0 h' w c' \<and> nextbag h1 \<le> c' \<longrightarrow> filled L h0 h' w c'"
      using res by simp
    have "r = fwd h' obj" unfolding o r using m' by (rule fwd_marked [symmetric])
    moreover have "val_done L h0 h' obj" using m' o by (auto simp: val_done_def)
    moreover have "\<forall>w c'. marked_as h0 h' w c' \<and> nextbag h \<le> c' \<longrightarrow> filled L h0 h' w c'"
      using marks inv s2 fb f2 by (rule started_new)
    ultimately show ?goal using res by blast
  next
    fix h1 b c k
    assume t: "TNUM_OBJ h obj = Inr T_DATOBJ"
      and bc: "begin_copy L h obj mut False = Inr (Started h1 b c)"
      and l: "copy_words h1 b c 1 k = Inr h'" and r: "r = Ref c"
    have le: "T_DATOBJ \<le> LAST_REAL_TNUM" by (simp add: tnum_defs)
    from started_facts [OF inv ok cl mm bc t le] obtain x y where o: "obj = Ref b"
      and x: "bags h0 b = Some x" and tx: "tnum x = T_DATOBJ"
      and ge: "nextbag h0 \<le> c" and lt: "c < nextbag h1" and s1: "copy_step h0 h h1 {}"
      and m1: "marked_as h0 h1 b c"
      and nf1: "\<forall>b' c'. marked_as h0 h1 b' c' \<longrightarrow> Suc c' \<noteq> c" and mm1: "mut_marks L h0 h1"
      and marks: "\<forall>w c'. marked_as h0 h1 w c' \<longrightarrow> (w = b \<and> c' = c) \<or> marked_as h0 h w c'"
      by blast
    have inv1: "copy_inv h0 h1" using s1 by (rule copy_step_inv)
    from copy_words_copy_step [OF ok inv1 l ge nf1]
    have s2: "copy_step h0 h1 h' {c}" by blast
    from copy_words_marks [OF ok inv1 l ge nf1]
    have o2: "\<forall>b' c'. marked_as h0 h' b' c' \<longrightarrow> marked_as h0 h1 b' c'" .
    have mm': "mut_marks L h0 h'" using mm1 o2 by (rule mut_marks_sub)
    have m': "marked_as h0 h' b c" using s2 m1 by (rule copy_step_keep)
    have fb: "filled L h0 h' b c" using x tx by (simp add: filled_def tnum_defs)
    have f2: "\<forall>w c'. marked_as h0 h' w c' \<and> nextbag h1 \<le> c' \<longrightarrow> filled L h0 h' w c'"
      using o2 marked_as_lt [OF inv1] by fastforce
    have "r = fwd h' obj" unfolding o r using m' by (rule fwd_marked [symmetric])
    moreover have "val_done L h0 h' obj" using m' o by (auto simp: val_done_def)
    moreover have "\<forall>w c'. marked_as h0 h' w c' \<and> nextbag h \<le> c' \<longrightarrow> filled L h0 h' w c'"
      using marks inv s2 fb f2 by (rule started_new)
    ultimately show ?goal using mm' by blast
  qed
qed

lemma v_all_ok:
  assumes ok: "heap_ok h0"
  shows "vcopy_ok L h0 n \<and> vpos_ok L h0 n \<and> vcom_ok L h0 n"
proof (induction n)
  case 0
  show ?case by (simp add: vcopy_ok_def vpos_ok_def vcom_ok_def)
next
  case (Suc n)
  from copy_all_ok [OF ok, of L n]
  have C: "copy_ok L h0 n" "pos_ok L h0 n" "com_ok L h0 n" by simp_all
  from Suc have IH: "vcopy_ok L h0 n" "vpos_ok L h0 n" "vcom_ok L h0 n" by simp_all
  have "vcopy_ok L h0 (Suc n)" using ok IH(2,3) C(2,3) by (rule vcopy_case)
  moreover have "vpos_ok L h0 (Suc n)" using ok IH(1,2) C(1,2) by (rule vpos_case)
  moreover have "vcom_ok L h0 (Suc n)" using ok IH(1,3) C(1,3) by (rule vcom_case)
  ultimately show ?case by blast
qed

lemma mut_marks_refl: "mut_marks L h0 h0"
  unfolding mut_marks_def using marked_not_same by blast

lemma val_done_new:
  assumes d: "val_done L h0 h1 v" and m: "IS_MUTABLE_OBJ L h0 v = Inr True"
  shows "\<exists>c. fwd h1 v = Ref c \<and> nextbag h0 \<le> c"
proof -
  from IS_MUTABLE_OBJ_True [OF m] have "v \<noteq> Null" by auto
  with d m obtain w c where v: "v = Ref w" and mk: "marked_as h0 h1 w c"
    by (auto simp: val_done_def)
  from mk have "nextbag h0 \<le> c" by (elim marked_asD)
  moreover from mk have "fwd h1 v = Ref c" unfolding v by (rule fwd_marked)
  ultimately show ?thesis by blast
qed

lemma slot_copied_image:
  assumes f: "slot_copied L h0 h1 x c j" and e: "bags h' c = bags h1 c"
    and n: "nextbag h = nextbag h0" and mu: "\<And>v. IS_MUTABLE_OBJ L h v = IS_MUTABLE_OBJ L h0 v"
  shows "slot_image L h h' (fwd h1) x c j"
proof -
  from f have d: "val_done L h0 h1 (slots x ! j)" by (simp add: slot_copied_def)
  have "IS_MUTABLE_OBJ L h (slots x ! j) = Inr True \<longrightarrow>
         (\<exists>c'. fwd h1 (slots x ! j) = Ref c' \<and> nextbag h \<le> c')"
    using val_done_new [OF d] mu n by simp
  with f e show ?thesis by (cases "bags h1 c") (simp_all add: slot_copied_def slot_image_def)
qed

lemma copy_clean_sharing:
  assumes ok: "heap_ok h0" and cl: "closed_val (nextbag h0) obj"
    and c: "COPY_OBJ L n h0 obj mut = Some (Inr (h1, new))"
    and k: "CLEAN_OBJ m h1 obj = Some (Inr h2)"
    and b': "bags h' = bags h2"
    and n: "nextbag h = nextbag h0" and b: "bags h = bags h0"
  shows "new = fwd h1 obj"
    and "IS_MUTABLE_OBJ L h obj = Inr True \<longrightarrow> (\<exists>c. new = Ref c \<and> nextbag h \<le> c)"
    and "copied_graph L h h' (fwd h1)"
proof -
  have inv0: "copy_inv h0 h0" using ok by (rule copy_inv_refl)
  have mu: "IS_MUTABLE_OBJ L h v = IS_MUTABLE_OBJ L h0 v" for v
    by (rule IS_MUTABLE_OBJ_same) (simp add: b)
  from copy_all_ok [OF ok, of L n] inv0 cl c
  have s1: "copy_step h0 h0 h1 {}" unfolding copy_ok_def by blast
  have inv1: "copy_inv h0 h1" using s1 by (rule copy_step_inv)
  from v_all_ok [OF ok, of L n] inv0 cl mut_marks_refl c
  have new: "new = fwd h1 obj" and d: "val_done L h0 h1 obj"
    and f: "\<forall>w c. marked_as h0 h1 w c \<and> nextbag h0 \<le> c \<longrightarrow> filled L h0 h1 w c"
    unfolding vcopy_ok_def by blast+
  from clean_all_ok [OF ok, of m] inv1 cl k
  have s2: "clean_step h0 h1 h2 {}" unfolding clean_ok_def by blast
  then have keep: "\<And>k. nextbag h0 \<le> k \<Longrightarrow> bags h' k = bags h1 k"
    unfolding clean_step_def b' by blast
  show "new = fwd h1 obj" by (rule new)
  show "IS_MUTABLE_OBJ L h obj = Inr True \<longrightarrow> (\<exists>c. new = Ref c \<and> nextbag h \<le> c)"
    using val_done_new [OF d] mu n new by simp
  show "copied_graph L h h' (fwd h1)"
    unfolding copied_graph_def
  proof (intro allI impI)
    fix w c x
    assume a: "bags h w = Some x \<and> fwd h1 (Ref w) = Ref c \<and> nextbag h \<le> c"
    then have x: "bags h0 w = Some x" and fw: "fwd h1 (Ref w) = Ref c" and ge: "nextbag h0 \<le> c"
      using b n by simp_all
    have lt: "w < nextbag h0"
    proof (rule ccontr)
      assume "\<not> w < nextbag h0"
      with ok have "bags h0 w = None" by (simp add: heap_ok_def)
      with x show False by simp
    qed
    have "\<exists>c'. marked_as h0 h1 w c'"
    proof (rule ccontr)
      assume "\<not> (\<exists>c'. marked_as h0 h1 w c')"
      then have "fwd h1 (Ref w) = Ref w" using inv1 ok by (intro fwd_unmarked) simp_all
      with fw lt ge show False by simp
    qed
    then obtain c' where mk: "marked_as h0 h1 w c'" by blast
    from fwd_marked [OF mk] fw have "c' = c" by simp
    with mk have mk: "marked_as h0 h1 w c" by simp
    with f ge have fl: "filled L h0 h1 w c" by blast
    have e: "bags h' c = bags h1 c" using ge by (rule keep)
    have im: "slot_copied L h0 h1 x c j \<Longrightarrow> slot_image L h h' (fwd h1) x c j" for j
      using e n mu by (rule slot_copied_image [rotated])
    from fl x im
    show "(tnum x = T_POSOBJ \<longrightarrow>
           (\<forall>i. 1 \<le> i \<and> i < size x div 8 \<longrightarrow> slot_image L h h' (fwd h1) x c i)) \<and>
        (tnum x = T_COMOBJ \<longrightarrow>
           (\<forall>i len. 1 < length (slots x) \<and> slots x ! 1 = Word len \<and> 1 \<le> i \<and> i \<le> len \<longrightarrow>
              slot_image L h h' (fwd h1) x c (2 * i + 1)))"
      by (simp add: filled_def)
  qed
qed

text \<open>
  C2: let the heap be in order and \<open>obj\<close> a handle of it. In whatever heap \<open>g\<close> a bag \<open>b\<close>
  is marked as being copied into \<open>c\<close> (it carries its tag plus \<open>COPYING\<close> and its first word
  refers to the forwarding record, whose second entry is \<open>c\<close>), a visit of \<open>b\<close> answers \<open>c\<close>
  and leaves the heap as it is, with one unit of fuel: it does not recurse. And when
  \<open>CopyObj\<close> returns, the result is the image of the original graph under one map \<open>\<phi>\<close> of
  objects: the result is \<open>\<phi> obj\<close>, a bag allocated by the call when \<open>obj\<close> was mutable; and for
  every bag \<open>w\<close> that was copied into a new bag \<open>c\<close>, every word of \<open>c\<close> over which the loop of
  the kind of \<open>w\<close> runs holds the image of the same word of \<open>w\<close>, which is a bag allocated by
  the call when that word held a mutable object. So two words that held the same mutable
  object hold the same new copy in the result.
\<close>

theorem CopyObj_preserves_sharing:
  assumes "heap_ok h" and "closed_val (nextbag h) obj"
    and "CopyObj L n h obj mut = Some (Inr (h', new))"
  shows "(\<forall>g b c k. marked_as h g b c \<longrightarrow>
            COPY_OBJ L (Suc k) g (Ref b) mut = Some (Inr (g, Ref c))) \<and>
    (\<exists>\<phi>. new = \<phi> obj \<and>
       (IS_MUTABLE_OBJ L h obj = Inr True \<longrightarrow> (\<exists>c. new = Ref c \<and> nextbag h \<le> c)) \<and>
       copied_graph L h h' \<phi>)"
proof -
  let ?h0 = "h\<lparr>copiedObjs := Null\<rparr>"
  from assms(3) obtain h1 h2 where c: "COPY_OBJ L n ?h0 obj mut = Some (Inr (h1, new))"
    and k: "CLEAN_OBJ n h1 obj = Some (Inr h2)" and h': "h' = h2\<lparr>copiedObjs := Null\<rparr>"
    by (auto simp: CopyObj_def split: option.splits sum.splits)
  have ok: "heap_ok ?h0" using assms(1) by (simp add: heap_ok_copiedObjs)
  have cl: "closed_val (nextbag ?h0) obj" using assms(2) by simp
  have b': "bags h' = bags h2" using h' by simp
  have n: "nextbag h = nextbag ?h0" and b: "bags h = bags ?h0" by simp_all
  from copy_clean_sharing [OF ok cl c k b' n b]
  have "\<exists>\<phi>. new = \<phi> obj \<and>
       (IS_MUTABLE_OBJ L h obj = Inr True \<longrightarrow> (\<exists>c. new = Ref c \<and> nextbag h \<le> c)) \<and>
       copied_graph L h h' \<phi>"
    by blast
  moreover have "\<forall>g b c k. marked_as h g b c \<longrightarrow>
            COPY_OBJ L (Suc k) g (Ref b) mut = Some (Inr (g, Ref c))"
    using COPY_OBJ_marked by blast
  ultimately show ?thesis by simp
qed

text \<open>
  C2 on \<open>heap0\<close>, where bag 0 holds bag 1 twice and itself once: the copy of bag 0 is
  bag 4, the copy of bag 1 is bag 6, and bag 4 holds bag 6 twice and itself once.
\<close>

theorem CopyObj_preserves_sharing_witness:
  "heap_ok heap0 \<and> closed_val (nextbag heap0) (Ref 0) \<and>
   (\<exists>h' new \<phi> y. CopyObj lib0 8 heap0 (Ref 0) True = Some (Inr (h', new)) \<and>
      new = \<phi> (Ref 0) \<and> copied_graph lib0 heap0 h' \<phi> \<and>
      new = Ref 4 \<and> \<phi> (Ref 1) = Ref 6 \<and>
      bags h' 4 = Some y \<and> slots y = [Ref 2, Ref 6, Ref 6, Ref 4])"
proof -
  have ok: "heap_ok heap0"
    by (auto simp: heap_ok_def heap0_def closed_val_def tnum_defs split: if_splits)
  have cl: "closed_val (nextbag heap0) (Ref 0)"
    by (simp add: closed_val_def heap0_def)
  have "(case CopyObj lib0 8 heap0 (Ref 0) True of
           Some (Inr (h', new)) \<Rightarrow>
             new = Ref 4 \<and>
             (case bags h' 4 of None \<Rightarrow> False
              | Some y \<Rightarrow> slots y = [Ref 2, Ref 6, Ref 6, Ref 4])
         | _ \<Rightarrow> False)"
    by code_simp
  then obtain h' new y where run: "CopyObj lib0 8 heap0 (Ref 0) True = Some (Inr (h', new))"
    and new: "new = Ref 4" and y: "bags h' 4 = Some y"
    and sl: "slots y = [Ref 2, Ref 6, Ref 6, Ref 4]"
    by (auto split: option.splits sum.splits)
  from CopyObj_preserves_sharing [OF ok cl run]
  obtain \<phi> where p: "new = \<phi> (Ref 0)" and g: "copied_graph lib0 heap0 h' \<phi>"
    by blast
  let ?x = "\<lparr>tnum = T_POSOBJ, size = 32, slots = [Ref 2, Ref 1, Ref 1, Ref 0]\<rparr>"
  have x: "bags heap0 0 = Some ?x" by (simp add: heap0_def)
  have n: "nextbag heap0 \<le> 4" by (simp add: heap0_def)
  from g have "bags heap0 0 = Some ?x \<and> \<phi> (Ref 0) = Ref 4 \<and> nextbag heap0 \<le> 4 \<longrightarrow>
      (tnum ?x = T_POSOBJ \<longrightarrow> (\<forall>i. 1 \<le> i \<and> i < size ?x div 8 \<longrightarrow> slot_image lib0 heap0 h' \<phi> ?x 4 i))"
    unfolding copied_graph_def by blast
  with x n p new have "slot_image lib0 heap0 h' \<phi> ?x 4 1" by simp
  with y sl have "\<phi> (Ref 1) = Ref 6" by (simp add: slot_image_def)
  with ok cl run p g new y sl show ?thesis by blast
qed

end
